theory Spec2Isabelle
  imports Main
begin

section \<open>Python values used by \<open>lab_2/lab2.py\<close>\<close>

text \<open>
  The embedding follows \<open>src/lab_2/lab2.py\<close> as CPython 3.11 runs it on a POSIX system
  (\<open>os.path\<close> is \<open>posixpath\<close>, \<open>os.sep\<close> is \<open>/\<close>).  A Python \<open>str\<close> is a \<open>string\<close>;
  one \<open>char\<close> stands for one code point, and no function below looks at a character
  other than \<open>/\<close>, \<open>.\<close>, the comma, the double quote, carriage return and line feed.
  An exception is a value of \<open>py_error\<close>; a computation that may raise returns
  \<open>py_error + 'a\<close> with \<open>Inl\<close> for the exception.
\<close>

datatype py_error =
    StopIteration
  | IndexError
  | ValueError
  | OSError
  | FileNotFoundError
  | IsADirectoryError
  | PermissionError
  | UnicodeEncodeError
  | UnicodeDecodeError
  | CsvError


definition LF :: char where
  "LF = CHR 0x0A"

definition CR :: char where
  "CR = CHR 0x0D"

text \<open>\<open>xs[i]\<close> on a Python list: a negative index counts from the end, an index out of
  range raises \<open>IndexError\<close>.\<close>

definition getitem :: "'a list \<Rightarrow> int \<Rightarrow> py_error + 'a" where
  "getitem xs i =
     (if 0 \<le> i \<and> i < int (length xs) then Inr (xs ! nat i)
      else if i < 0 \<and> - int (length xs) \<le> i then Inr (xs ! nat (int (length xs) + i))
      else Inl IndexError)"

section \<open>Strings\<close>

text \<open>\<open>s.startswith(p)\<close> and \<open>s.endswith(p)\<close>.\<close>

definition startswith :: "string \<Rightarrow> string \<Rightarrow> bool" where
  "startswith s p = (take (length p) s = p)"

definition endswith :: "string \<Rightarrow> string \<Rightarrow> bool" where
  "endswith s p = (length p \<le> length s \<and> drop (length s - length p) s = p)"

text \<open>\<open>s.split(c)\<close> for a separator of one character: the pieces between the
  separators, empty pieces kept, so the result is never the empty list.\<close>

fun split_sep :: "char \<Rightarrow> string \<Rightarrow> string list" where
  "split_sep c [] = [[]]"
| "split_sep c (x # xs) =
     (if x = c then [] # split_sep c xs
      else (x # hd (split_sep c xs)) # tl (split_sep c xs))"

text \<open>\<open>s.join(xs)\<close>.\<close>

fun str_join :: "string \<Rightarrow> string list \<Rightarrow> string" where
  "str_join s [] = []"
| "str_join s [x] = x"
| "str_join s (x # y # ys) = x @ s @ str_join s (y # ys)"

text \<open>\<open>s.rstrip(c)\<close> for one character \<open>c\<close>.\<close>

definition rstrip :: "char \<Rightarrow> string \<Rightarrow> string" where
  "rstrip c s = rev (dropWhile (\<lambda>x. x = c) (rev s))"

section \<open>\<open>os.path\<close> on POSIX\<close>

text \<open>
  The functions of \<open>posixpath\<close> that \<open>save_annotations\<close> and \<open>download_images\<close> call.
  They work on the text of a path only; the one thing they read from the process is
  the working directory, which every function that needs \<open>os.getcwd()\<close> takes as its
  first argument \<open>cwd\<close>.
\<close>

definition sep :: char where
  "sep = CHR ''/''"

definition isabs :: "string \<Rightarrow> bool" where
  "isabs s = startswith s [sep]"

text \<open>One round of the loop of \<open>join(a, *p)\<close>: \<open>path\<close> so far and the next part \<open>b\<close>.\<close>

definition join_step :: "string \<Rightarrow> string \<Rightarrow> string" where
  "join_step path b =
     (if startswith b [sep] then b
      else if path = [] \<or> endswith path [sep] then path @ b
      else path @ [sep] @ b)"

definition posix_join :: "string \<Rightarrow> string list \<Rightarrow> string" where
  "posix_join a p = foldl join_step a p"

text \<open>\<open>dirname(p)\<close>: everything up to the last slash, without trailing slashes unless
  it consists of slashes only.\<close>

definition dirname :: "string \<Rightarrow> string" where
  "dirname p =
     (let head = rev (dropWhile (\<lambda>x. x \<noteq> sep) (rev p))
      in if head \<noteq> [] \<and> head \<noteq> replicate (length head) sep then rstrip sep head
         else head)"

text \<open>\<open>normpath\<close>: POSIX keeps exactly two leading slashes and reads three or more as
  one.\<close>

definition initial_slashes :: "string \<Rightarrow> nat" where
  "initial_slashes path =
     (if \<not> startswith path [sep] then 0
      else if startswith path [sep, sep] \<and> \<not> startswith path [sep, sep, sep] then 2
      else 1)"

text \<open>The body of the loop over the components: \<open>new_comps\<close> is the list built so
  far.\<close>

definition norm_step :: "nat \<Rightarrow> string list \<Rightarrow> string \<Rightarrow> string list" where
  "norm_step slashes new_comps component =
     (if component = [] \<or> component = ''.'' then new_comps
      else if component \<noteq> ''..'' \<or> (slashes = 0 \<and> new_comps = [])
              \<or> (new_comps \<noteq> [] \<and> last new_comps = ''..'')
           then new_comps @ [component]
      else if new_comps \<noteq> [] then butlast new_comps
      else new_comps)"

definition normpath :: "string \<Rightarrow> string" where
  "normpath path =
     (if path = [] then ''.''
      else
        let slashes = initial_slashes path;
            comps = foldl (norm_step slashes) [] (split_sep sep path);
            joined = replicate slashes sep @ str_join [sep] comps
        in if joined = [] then ''.'' else joined)"

definition abspath :: "string \<Rightarrow> string \<Rightarrow> string" where
  "abspath cwd path = normpath (if \<not> isabs path then posix_join cwd [path] else path)"

text \<open>\<open>commonprefix([xs, ys])\<close> on two lists of components is their longest common
  prefix; \<open>relpath\<close> uses its length only.\<close>

fun commonprefix :: "string list \<Rightarrow> string list \<Rightarrow> string list" where
  "commonprefix (x # xs) (y # ys) = (if x = y then x # commonprefix xs ys else [])"
| "commonprefix _ _ = []"

text \<open>\<open>relpath(path, start)\<close>; an empty \<open>path\<close> raises \<open>ValueError\<close>.\<close>

definition relpath :: "string \<Rightarrow> string \<Rightarrow> string \<Rightarrow> py_error + string" where
  "relpath cwd path start =
     (if path = [] then Inl ValueError
      else
        let start_list = filter (\<lambda>x. x \<noteq> []) (split_sep sep (abspath cwd start));
            path_list = filter (\<lambda>x. x \<noteq> []) (split_sep sep (abspath cwd path));
            i = length (commonprefix start_list path_list);
            rel_list = replicate (length start_list - i) ''..'' @ drop i path_list
        in if rel_list = [] then Inr ''.''
           else Inr (posix_join (hd rel_list) (tl rel_list)))"

section \<open>The \<open>csv\<close> module with its default dialect\<close>

text \<open>
  \<open>csv.writer(f)\<close> and \<open>csv.reader(f)\<close> are called without options, so the dialect is
  \<open>excel\<close>: delimiter comma, quote character \<open>"\<close>, quotes doubled inside a quoted field,
  minimal quoting, no escape character, not strict, line terminator carriage return
  plus line feed.
\<close>

definition delimiter :: char where
  "delimiter = CHR '',''"

definition quotechar :: char where
  "quotechar = CHR 0x22"

definition lineterminator :: string where
  "lineterminator = [CR, LF]"

text \<open>The writer quotes a field when it holds the delimiter, the quote character or
  a character of the line terminator, and doubles every quote character in it.\<close>

definition needs_quotes :: "char \<Rightarrow> bool" where
  "needs_quotes c = (c = delimiter \<or> c = quotechar \<or> c \<in> set lineterminator)"

definition join_append :: "string \<Rightarrow> string" where
  "join_append fld =
     (let body = concat (map (\<lambda>c. if c = quotechar then [c, c] else [c]) fld)
      in if list_ex needs_quotes fld then [quotechar] @ body @ [quotechar] else body)"

text \<open>\<open>writer.writerow(row)\<close>: the text handed to \<open>f.write\<close>.  A row of one empty field
  is written as a pair of quotes.\<close>

definition writerow :: "string list \<Rightarrow> string" where
  "writerow row =
     (if row = [[]] then [quotechar, quotechar]
      else str_join [delimiter] (map join_append row)) @ lineterminator"

text \<open>
  The reader is the state machine of \<open>_csv.c\<close>.  Without an escape character the
  states \<open>ESCAPED_CHAR\<close>, \<open>ESCAPE_IN_QUOTED_FIELD\<close> and \<open>AFTER_ESCAPED_CRNL\<close> are never
  entered and are left out.  The reader object holds the state, the fields of the
  record read so far and the characters of the field being read.  The character given
  to \<open>parse_process_char\<close> is \<open>Some c\<close>, or \<open>None\<close> for the end-of-line mark that the
  reader feeds itself after the last character of every line.
\<close>

datatype parser_state =
    START_RECORD
  | START_FIELD
  | IN_FIELD
  | IN_QUOTED_FIELD
  | QUOTE_IN_QUOTED_FIELD
  | EAT_CRNL

record reader =
  state :: parser_state
  row_fields :: "string list"
  field :: string

text \<open>\<open>csv.field_size_limit()\<close>: a field may hold this many characters; one more raises
  \<open>csv.Error\<close>.\<close>

definition field_limit :: nat where
  "field_limit = 131072"

definition parse_reset :: reader where
  "parse_reset = \<lparr>state = START_RECORD, row_fields = [], field = []\<rparr>"

definition parse_add_char :: "reader \<Rightarrow> char \<Rightarrow> py_error + reader" where
  "parse_add_char self c =
     (if field_limit \<le> length (field self) then Inl CsvError
      else Inr (self\<lparr>field := field self @ [c]\<rparr>))"

definition parse_save_field :: "reader \<Rightarrow> reader" where
  "parse_save_field self = self\<lparr>row_fields := row_fields self @ [field self], field := []\<rparr>"

definition add_char_then :: "parser_state \<Rightarrow> reader \<Rightarrow> char \<Rightarrow> py_error + reader" where
  "add_char_then st self c =
     (case parse_add_char self c of Inl e \<Rightarrow> Inl e | Inr self' \<Rightarrow> Inr (self'\<lparr>state := st\<rparr>))"

text \<open>The case \<open>START_FIELD\<close>, which the case \<open>START_RECORD\<close> falls through to.\<close>

definition start_field :: "reader \<Rightarrow> char option \<Rightarrow> py_error + reader" where
  "start_field self c =
     (case c of
        None \<Rightarrow> Inr ((parse_save_field self)\<lparr>state := START_RECORD\<rparr>)
      | Some ch \<Rightarrow>
          if ch = LF \<or> ch = CR then Inr ((parse_save_field self)\<lparr>state := EAT_CRNL\<rparr>)
          else if ch = quotechar then Inr (self\<lparr>state := IN_QUOTED_FIELD\<rparr>)
          else if ch = delimiter then Inr (parse_save_field self)
          else add_char_then IN_FIELD self ch)"

definition parse_process_char :: "reader \<Rightarrow> char option \<Rightarrow> py_error + reader" where
  "parse_process_char self c =
     (case state self of
        START_RECORD \<Rightarrow>
          (case c of
             None \<Rightarrow> Inr self
           | Some ch \<Rightarrow>
               if ch = LF \<or> ch = CR then Inr (self\<lparr>state := EAT_CRNL\<rparr>)
               else start_field (self\<lparr>state := START_FIELD\<rparr>) c)
      | START_FIELD \<Rightarrow> start_field self c
      | IN_FIELD \<Rightarrow>
          (case c of
             None \<Rightarrow> Inr ((parse_save_field self)\<lparr>state := START_RECORD\<rparr>)
           | Some ch \<Rightarrow>
               if ch = LF \<or> ch = CR then Inr ((parse_save_field self)\<lparr>state := EAT_CRNL\<rparr>)
               else if ch = delimiter then Inr ((parse_save_field self)\<lparr>state := START_FIELD\<rparr>)
               else parse_add_char self ch)
      | IN_QUOTED_FIELD \<Rightarrow>
          (case c of
             None \<Rightarrow> Inr self
           | Some ch \<Rightarrow>
               if ch = quotechar then Inr (self\<lparr>state := QUOTE_IN_QUOTED_FIELD\<rparr>)
               else parse_add_char self ch)
      | QUOTE_IN_QUOTED_FIELD \<Rightarrow>
          (case c of
             None \<Rightarrow> Inr ((parse_save_field self)\<lparr>state := START_RECORD\<rparr>)
           | Some ch \<Rightarrow>
               if ch = quotechar then add_char_then IN_QUOTED_FIELD self ch
               else if ch = delimiter then Inr ((parse_save_field self)\<lparr>state := START_FIELD\<rparr>)
               else if ch = LF \<or> ch = CR then Inr ((parse_save_field self)\<lparr>state := EAT_CRNL\<rparr>)
               else add_char_then IN_FIELD self ch)
      | EAT_CRNL \<Rightarrow>
          (case c of
             None \<Rightarrow> Inr (self\<lparr>state := START_RECORD\<rparr>)
           | Some ch \<Rightarrow> if ch = LF \<or> ch = CR then Inr self else Inl CsvError))"

text \<open>One line of input: its characters, then the end-of-line mark.\<close>

fun parse_chars :: "reader \<Rightarrow> string \<Rightarrow> py_error + reader" where
  "parse_chars self [] = Inr self"
| "parse_chars self (c # cs) =
     (case parse_process_char self (Some c) of
        Inl e \<Rightarrow> Inl e
      | Inr self' \<Rightarrow> parse_chars self' cs)"

definition parse_line :: "reader \<Rightarrow> string \<Rightarrow> py_error + reader" where
  "parse_line self line =
     (case parse_chars self line of
        Inl e \<Rightarrow> Inl e
      | Inr self' \<Rightarrow> parse_process_char self' None)"

text \<open>
  Iterating over the reader.  Each \<open>next(reader)\<close> resets the parser and takes lines
  from the file until the state is \<open>START_RECORD\<close> again, then returns the fields; when
  the lines run out inside a record it returns what it has, and when they run out
  between records it raises \<open>StopIteration\<close>.  The results of the successive calls
  are listed in order: \<open>Inr row\<close> for a row, \<open>Inl e\<close> for an exception other than
  \<open>StopIteration\<close>, after which nothing more is read; the end of the list is
  \<open>StopIteration\<close>.
\<close>

fun reader_iter :: "reader \<Rightarrow> string list \<Rightarrow> (py_error + string list) list" where
  "reader_iter self [] =
     (if field self \<noteq> [] \<or> state self = IN_QUOTED_FIELD
      then [Inr (row_fields (parse_save_field self))] else [])"
| "reader_iter self (line # rest) =
     (case parse_line self line of
        Inl e \<Rightarrow> [Inl e]
      | Inr self' \<Rightarrow>
          if state self' = START_RECORD then Inr (row_fields self') # reader_iter parse_reset rest
          else reader_iter self' rest)"

section \<open>Files\<close>

text \<open>
  Why \<open>open\<close> fails at a path: nothing is there (for writing: the directory is not
  there), a directory is there, the process is not allowed to, or something else the
  operating system reports.
\<close>

datatype open_failure =
    Absent
  | Is_Directory
  | No_Permission
  | Other_Failure

fun open_error :: "open_failure \<Rightarrow> py_error" where
  "open_error Absent = FileNotFoundError"
| "open_error Is_Directory = IsADirectoryError"
| "open_error No_Permission = PermissionError"
| "open_error Other_Failure = OSError"

text \<open>
  A file system, as far as the program meets it.  A file is found by the path as it is
  passed to \<open>open\<close>.
  \<^item> \<open>files\<close> gives the text of the file at a path that can be opened for reading
    and holds text in the encoding \<open>open\<close> uses.
  \<^item> \<open>read_blocked\<close> is asked where \<open>files\<close> has no text: it says why the path cannot
    be opened for reading, or \<open>None\<close> when the file opens but its bytes are not text in
    that encoding, so that reading from it raises \<open>UnicodeDecodeError\<close>.
  \<^item> \<open>write_blocked\<close> says why a path cannot be opened for writing, if it cannot.
  \<^item> \<open>encodable\<close> says which characters the encoding can write; writing another one
    raises \<open>UnicodeEncodeError\<close> (a lone surrogate under UTF-8, as \<open>os.walk\<close> returns
    for a file name that is not valid UTF-8).
  What has been written with success can be read back as the same text.
\<close>

record filesystem =
  files :: "string \<Rightarrow> string option"
  read_blocked :: "string \<Rightarrow> open_failure option"
  write_blocked :: "string \<Rightarrow> open_failure option"
  encodable :: "char \<Rightarrow> bool"

text \<open>Reading a file opened with \<open>mode='r'\<close> and no \<open>newline\<close> argument: carriage
  return plus line feed, and a carriage return alone, arrive as one line feed.\<close>

fun universal_newlines :: "string \<Rightarrow> string" where
  "universal_newlines [] = []"
| "universal_newlines [c] = (if c = CR then [LF] else [c])"
| "universal_newlines (c # d # cs) =
     (if c = CR \<and> d = LF then LF # universal_newlines cs
      else if c = CR then LF # universal_newlines (d # cs)
      else c # universal_newlines (d # cs))"

text \<open>Iterating over the open file gives its lines, each with its line feed; the last
  one may lack it.\<close>

fun readlines :: "string \<Rightarrow> string list" where
  "readlines [] = []"
| "readlines (c # cs) =
     (if c = LF then [c] # readlines cs
      else (case readlines cs of [] \<Rightarrow> [[c]] | l # ls \<Rightarrow> (c # l) # ls))"

definition csv_reader :: "string \<Rightarrow> (py_error + string list) list" where
  "csv_reader content = reader_iter parse_reset (readlines (universal_newlines content))"

section \<open>\<open>save_annotations\<close>\<close>

text \<open>The row computed for one image in the loop of \<open>save_annotations\<close>.\<close>

definition annotation_row :: "string \<Rightarrow> string \<Rightarrow> string \<Rightarrow> py_error + string list" where
  "annotation_row cwd annotation_file image_path =
     (let absolute_path = abspath cwd image_path
      in case relpath cwd image_path (dirname annotation_file) of
           Inl e \<Rightarrow> Inl e
         | Inr relative_path \<Rightarrow> Inr [absolute_path, relative_path])"

text \<open>\<open>f.write(s)\<close> on the file opened with \<open>newline=''\<close>: the text is stored as it is
  given, after \<open>out\<close>, the text written so far; a character the encoding cannot write
  raises \<open>UnicodeEncodeError\<close> and nothing of \<open>s\<close> is written.\<close>

definition f_write :: "filesystem \<Rightarrow> string \<Rightarrow> string \<Rightarrow> py_error + string" where
  "f_write fs out s =
     (if list_all (encodable fs) s then Inr (out @ s) else Inl UnicodeEncodeError)"

text \<open>The loop: \<open>out\<close> is the text written to the file so far.  An exception leaves the
  loop; the \<open>with\<close> block closes the file with what was written.\<close>

fun write_rows ::
    "filesystem \<Rightarrow> string \<Rightarrow> string \<Rightarrow> string list \<Rightarrow> string \<Rightarrow> string \<times> py_error option" where
  "write_rows fs cwd annotation_file [] out = (out, None)"
| "write_rows fs cwd annotation_file (image_path # rest) out =
     (case annotation_row cwd annotation_file image_path of
        Inl e \<Rightarrow> (out, Some e)
      | Inr row \<Rightarrow>
          (case f_write fs out (writerow row) of
             Inl e \<Rightarrow> (out, Some e)
           | Inr out' \<Rightarrow> write_rows fs cwd annotation_file rest out'))"

text \<open>\<open>save_annotations\<close>: opening the file for writing empties it; then the header,
  then the loop.  The result is the file system after the call and the exception
  raised, if any.\<close>

definition save_annotations ::
    "string \<Rightarrow> string list \<Rightarrow> string \<Rightarrow> filesystem \<Rightarrow> filesystem \<times> py_error option" where
  "save_annotations cwd image_paths annotation_file fs =
     (case write_blocked fs annotation_file of
        Some why \<Rightarrow> (fs, Some (open_error why))
      | None \<Rightarrow>
          (case f_write fs [] (writerow [''absolute_path'', ''relative_path'']) of
             Inl e \<Rightarrow> (fs\<lparr>files := (files fs)(annotation_file \<mapsto> [])\<rparr>, Some e)
           | Inr header \<Rightarrow>
               (case write_rows fs cwd annotation_file image_paths header of
                  (out, err) \<Rightarrow>
                    (fs\<lparr>files := (files fs)(annotation_file \<mapsto> out)\<rparr>, err))))"

section \<open>The iterator \<open>ImageIterator\<close>\<close>

record ImageIterator =
  annotation_file :: string
  image_paths :: "string list"
  current_index :: int

text \<open>\<open>[row[0] for row in reader]\<close> over the results the reader still has to give.\<close>

fun first_column :: "(py_error + string list) list \<Rightarrow> py_error + string list" where
  "first_column [] = Inr []"
| "first_column (Inl e # rest) = Inl e"
| "first_column (Inr row # rest) =
     (case getitem row 0 of
        Inl e \<Rightarrow> Inl e
      | Inr x \<Rightarrow> (case first_column rest of Inl e \<Rightarrow> Inl e | Inr xs \<Rightarrow> Inr (x # xs)))"

text \<open>\<open>load_annotations\<close>: \<open>open\<close> raises when the path cannot be opened; reading a
  file that is not text raises \<open>UnicodeDecodeError\<close>; \<open>next(reader)\<close> takes the header
  away and raises \<open>StopIteration\<close> when the reader has no row at all.\<close>

definition load_annotations :: "filesystem \<Rightarrow> ImageIterator \<Rightarrow> py_error + ImageIterator" where
  "load_annotations fs self =
     (case files fs (annotation_file self) of
        None \<Rightarrow>
          (case read_blocked fs (annotation_file self) of
             Some why \<Rightarrow> Inl (open_error why)
           | None \<Rightarrow> Inl UnicodeDecodeError)
      | Some content \<Rightarrow>
          (case csv_reader content of
             [] \<Rightarrow> Inl StopIteration
           | Inl e # rows \<Rightarrow> Inl e
           | Inr header # rows \<Rightarrow>
               (case first_column rows of
                  Inl e \<Rightarrow> Inl e
                | Inr paths \<Rightarrow> Inr (self\<lparr>image_paths := paths\<rparr>))))"

text \<open>\<open>__init__\<close>: the constructed object, or the exception that leaves the
  constructor.\<close>

definition ImageIterator_init :: "filesystem \<Rightarrow> string \<Rightarrow> py_error + ImageIterator" where
  "ImageIterator_init fs file =
     load_annotations fs \<lparr>annotation_file = file, image_paths = [], current_index = 0\<rparr>"

text \<open>\<open>__iter__\<close> returns \<open>self\<close>.\<close>

definition ImageIterator_iter :: "ImageIterator \<Rightarrow> ImageIterator" where
  "ImageIterator_iter self = self"

text \<open>\<open>__next__\<close>: the outcome of the call (the returned path or the exception raised)
  and the object after the call.\<close>

definition ImageIterator_next :: "ImageIterator \<Rightarrow> (py_error + string) \<times> ImageIterator" where
  "ImageIterator_next self =
     (if current_index self < int (length (image_paths self)) then
        (case getitem (image_paths self) (current_index self) of
           Inl e \<Rightarrow> (Inl e, self)
         | Inr image_path \<Rightarrow>
             (Inr image_path, self\<lparr>current_index := current_index self + 1\<rparr>))
      else (Inl StopIteration, self))"

text \<open>\<open>n\<close> calls of \<open>next()\<close> one after the other: the outcomes in order, and the object
  after the last call.\<close>

fun next_calls :: "nat \<Rightarrow> ImageIterator \<Rightarrow> (py_error + string) list \<times> ImageIterator" where
  "next_calls 0 self = ([], self)"
| "next_calls (Suc n) self =
     (case ImageIterator_next self of
        (r, self') \<Rightarrow> (case next_calls n self' of (rs, self'') \<Rightarrow> (r # rs, self'')))"

text \<open>
  A \<open>for\<close> loop over the iterator, or any other consumer that calls \<open>next()\<close> until an
  exception: the paths returned, the exception that ended the run, and the object
  afterwards.
\<close>

function drain :: "ImageIterator \<Rightarrow> string list \<times> py_error \<times> ImageIterator" where
  "drain self =
     (case ImageIterator_next self of
        (Inl e, self') \<Rightarrow> ([], e, self')
      | (Inr image_path, self') \<Rightarrow>
          (case drain self' of (got, r) \<Rightarrow> (image_path # got, r)))"
  by pat_completeness auto
termination
  by (relation "measure (\<lambda>self. nat (int (length (image_paths self)) - current_index self))")
     (auto simp: ImageIterator_next_def split: if_splits sum.splits)

section \<open>\<open>download_images\<close>: the walk over the download folder\<close>









section \<open>The range of the index, and example data\<close>

text \<open>The index of an iterator points into the loaded list or just behind it.\<close>

definition index_in_range :: "ImageIterator \<Rightarrow> bool" where
  "index_in_range self =
     (0 \<le> current_index self \<and> current_index self \<le> int (length (image_paths self)))"

text \<open>The first line \<open>save_annotations\<close> writes; a file system that holds one file
  and nothing else, where every path can be opened for writing and every character can
  be written; a file system with a manifest that has a blank line after the header,
  and a directory; a manifest of two images; and an iterator over three paths.\<close>

definition header_line :: string where
  "header_line = writerow [''absolute_path'', ''relative_path'']"

definition fs_with :: "string \<Rightarrow> string \<Rightarrow> filesystem" where
  "fs_with file content =
     \<lparr>files = Map.empty(file \<mapsto> content), read_blocked = (\<lambda>p. Some Absent),
      write_blocked = (\<lambda>p. None), encodable = (\<lambda>c. True)\<rparr>"




definition example_manifest :: string where
  "example_manifest =
     header_line @ ''/d/a.jpg,a.jpg'' @ [CR, LF] @ ''/d/b.png,b.png'' @ [CR, LF]"

definition example_iterator :: ImageIterator where
  "example_iterator =
     \<lparr>annotation_file = ''m.csv'', image_paths = [''/d/a.jpg'', ''/d/b.png'', ''/d/c.jpeg''],
      current_index = 0\<rparr>"

text \<open>
  What \<open>abspath\<close> computes, in parts: the text it normalises, the number of leading
  slashes it keeps, and the components left by the loop of \<open>normpath\<close>; the list
  \<open>rel_list\<close> that \<open>relpath\<close> joins; and what holds of the components of a
  normalised absolute path: none is empty, \<open>.\<close> or \<open>..\<close>, none has a slash.
\<close>

definition clean :: "string list \<Rightarrow> bool" where
  "clean comps = list_all (\<lambda>x. x \<noteq> [] \<and> x \<noteq> ''.'' \<and> x \<noteq> ''..'' \<and> sep \<notin> set x) comps"

definition absolute_text :: "string \<Rightarrow> string \<Rightarrow> string" where
  "absolute_text cwd s = (if \<not> isabs s then posix_join cwd [s] else s)"

definition leading :: "string \<Rightarrow> string \<Rightarrow> nat" where
  "leading cwd s = initial_slashes (absolute_text cwd s)"

definition components :: "string \<Rightarrow> string \<Rightarrow> string list" where
  "components cwd s =
     foldl (norm_step (leading cwd s)) [] (split_sep sep (absolute_text cwd s))"

definition rel_list :: "string \<Rightarrow> string \<Rightarrow> string \<Rightarrow> string list" where
  "rel_list cwd path start =
     replicate (length (components cwd start)
                 - length (commonprefix (components cwd start) (components cwd path))) ''..''
     @ drop (length (commonprefix (components cwd start) (components cwd path)))
            (components cwd path)"

text \<open>
  The body of a quoted field as the writer puts it, every quote character doubled, and
  a data line as it reaches the reader, the line terminator read as one line feed.
\<close>

definition escaped :: "string \<Rightarrow> string" where
  "escaped w = concat (map (\<lambda>c. if c = quotechar then [c, c] else [c]) w)"

definition read_line :: "string \<times> string \<Rightarrow> string" where
  "read_line row = join_append (fst row) @ delimiter # join_append (snd row) @ [LF]"

text \<open>A data line of the manifest: the two fields as the writer puts them, a comma
  between them, carriage return and line feed after them.\<close>

definition data_line :: "string \<Rightarrow> string \<Rightarrow> string" where
  "data_line absolute_path relative_path =
     join_append absolute_path @ [delimiter] @ join_append relative_path @ [CR, LF]"



section \<open>Calls of \<open>next()\<close>\<close>

declare drain.simps [simp del]

lemma next_exhausted:
  "int (length (image_paths self)) \<le> current_index self \<Longrightarrow>
   ImageIterator_next self = (Inl StopIteration, self)"
  by (simp add: ImageIterator_next_def)

text \<open>
  Claim C3.  Once \<open>current_index\<close> has reached the length of the loaded sequence, every
  later call of \<open>next()\<close> raises \<open>StopIteration\<close>: any number \<open>n\<close> of calls gives \<open>n\<close>
  times \<open>StopIteration\<close>, never a path and never another exception, and leaves the
  object as it was, so the index does not go back to the beginning.
\<close>

theorem exhausted_stays_exhausted:
  assumes "int (length (image_paths self)) \<le> current_index self"
  shows "next_calls n self = (replicate n (Inl StopIteration), self)"
  using assms by (induction n) (simp_all add: next_exhausted)

theorem exhausted_stays_exhausted_witness:
  "int (length (image_paths \<lparr>annotation_file = ''m.csv'', image_paths = [''/d/a.jpg''],
          current_index = 1\<rparr>)) \<le> current_index \<lparr>annotation_file = ''m.csv'',
          image_paths = [''/d/a.jpg''], current_index = 1\<rparr>
   \<and> next_calls 3 \<lparr>annotation_file = ''m.csv'', image_paths = [''/d/a.jpg''],
          current_index = 1\<rparr>
       = ([Inl StopIteration, Inl StopIteration, Inl StopIteration],
          \<lparr>annotation_file = ''m.csv'', image_paths = [''/d/a.jpg''], current_index = 1\<rparr>)"
  using exhausted_stays_exhausted
    [of "\<lparr>annotation_file = ''m.csv'', image_paths = [''/d/a.jpg''], current_index = 1\<rparr>" 3]
  by (simp add: numeral_3_eq_3)

section \<open>Positions of the index\<close>

lemma getitem_in_range:
  "0 \<le> i \<Longrightarrow> i < int (length xs) \<Longrightarrow> getitem xs i = Inr (xs ! nat i)"
  by (simp add: getitem_def)

lemma next_in_range:
  "0 \<le> current_index self \<Longrightarrow> current_index self < int (length (image_paths self)) \<Longrightarrow>
   ImageIterator_next self =
     (Inr (image_paths self ! nat (current_index self)),
      self\<lparr>current_index := current_index self + 1\<rparr>)"
  by (simp add: ImageIterator_next_def getitem_in_range)

lemma next_index_mono: "current_index self \<le> current_index (snd (ImageIterator_next self))"
  by (simp add: ImageIterator_next_def split: sum.splits)

lemma next_paths_same: "image_paths (snd (ImageIterator_next self)) = image_paths self"
  by (simp add: ImageIterator_next_def split: sum.splits)

lemma drain_in_range:
  "0 \<le> current_index self \<Longrightarrow> current_index self \<le> int (length (image_paths self)) \<Longrightarrow>
   drain self = (drop (nat (current_index self)) (image_paths self), StopIteration,
                 self\<lparr>current_index := int (length (image_paths self))\<rparr>)"
proof (induction "length (image_paths self) - nat (current_index self)" arbitrary: self)
  case 0
  then have eq: "current_index self = int (length (image_paths self))" by simp
  then have "ImageIterator_next self = (Inl StopIteration, self)"
    by (simp add: next_exhausted)
  then show ?case using eq by (subst drain.simps) simp
next
  case (Suc k)
  then have lt: "current_index self < int (length (image_paths self))" by linarith
  let ?s = "self\<lparr>current_index := current_index self + 1\<rparr>"
  have nx: "ImageIterator_next self = (Inr (image_paths self ! nat (current_index self)), ?s)"
    using Suc.prems lt by (simp add: next_in_range)
  have k: "k = length (image_paths ?s) - nat (current_index ?s)"
    using Suc.hyps(2) Suc.prems by simp
  have ih: "drain ?s = (drop (nat (current_index ?s)) (image_paths ?s), StopIteration,
                 ?s\<lparr>current_index := int (length (image_paths ?s))\<rparr>)"
    using Suc.hyps(1)[OF k] Suc.prems lt by simp
  have d: "drop (nat (current_index self)) (image_paths self)
           = image_paths self ! nat (current_index self)
             # drop (nat (current_index self + 1)) (image_paths self)"
    using Suc.prems lt by (simp add: Cons_nth_drop_Suc nat_add_distrib)
  show ?case by (subst drain.simps) (simp add: nx ih d)
qed

lemma next_calls_in_range:
  "0 \<le> current_index self \<Longrightarrow> current_index self + int k \<le> int (length (image_paths self)) \<Longrightarrow>
   next_calls k self =
     (map Inr (take k (drop (nat (current_index self)) (image_paths self))),
      self\<lparr>current_index := current_index self + int k\<rparr>)"
proof (induction k arbitrary: self)
  case 0
  then show ?case by simp
next
  case (Suc k)
  let ?s = "self\<lparr>current_index := current_index self + 1\<rparr>"
  have lt: "current_index self < int (length (image_paths self))" using Suc.prems by simp
  have nx: "ImageIterator_next self = (Inr (image_paths self ! nat (current_index self)), ?s)"
    using Suc.prems lt by (simp add: next_in_range)
  have ih: "next_calls k ?s = (map Inr (take k (drop (nat (current_index ?s)) (image_paths ?s))),
      ?s\<lparr>current_index := current_index ?s + int k\<rparr>)"
    using Suc.prems by (intro Suc.IH) simp_all
  have d: "drop (nat (current_index self)) (image_paths self)
           = image_paths self ! nat (current_index self)
             # drop (nat (current_index self + 1)) (image_paths self)"
    using Suc.prems lt by (simp add: Cons_nth_drop_Suc nat_add_distrib)
  show ?case using ih by (simp add: nx d ac_simps)
qed

lemma load_annotations_fields:
  "load_annotations fs self = Inr self' \<Longrightarrow>
   current_index self' = current_index self \<and> annotation_file self' = annotation_file self"
  by (auto simp: load_annotations_def split: option.splits list.splits sum.splits)

lemma init_fresh:
  "ImageIterator_init fs file = Inr it \<Longrightarrow> current_index it = 0 \<and> annotation_file it = file"
  unfolding ImageIterator_init_def by (drule load_annotations_fields) simp

text \<open>
  Claim C9.  \<open>iter()\<close> returns the iterator itself, with the index where it was.  No
  method lowers \<open>current_index\<close>: \<open>next()\<close> leaves it or raises it, and
  \<open>load_annotations\<close> does not touch it.  So a \<open>for\<close> loop over an iterator of which
  \<open>k\<close> paths have been taken already gives the paths from position \<open>k\<close> on, not the
  whole list again.
\<close>

theorem iter_resumes_index_never_decreases:
  "ImageIterator_iter self = self
   \<and> current_index self \<le> current_index (snd (ImageIterator_next self))
   \<and> (\<forall>fs self'. load_annotations fs self = Inr self' \<longrightarrow>
          current_index self' = current_index self)
   \<and> (current_index self = 0 \<and> k \<le> length (image_paths self) \<longrightarrow>
        fst (drain (ImageIterator_iter (snd (next_calls k self))))
          = drop k (image_paths self))"
proof -
  have a: "ImageIterator_iter self = self" by (simp add: ImageIterator_iter_def)
  have b: "current_index self \<le> current_index (snd (ImageIterator_next self))"
    by (rule next_index_mono)
  have c: "\<forall>fs self'. load_annotations fs self = Inr self' \<longrightarrow>
          current_index self' = current_index self"
    using load_annotations_fields by blast
  have d: "fst (drain (ImageIterator_iter (snd (next_calls k self)))) = drop k (image_paths self)"
    if "current_index self = 0" "k \<le> length (image_paths self)"
  proof -
    have "next_calls k self =
            (map Inr (take k (drop (nat (current_index self)) (image_paths self))),
             self\<lparr>current_index := current_index self + int k\<rparr>)"
      using that by (intro next_calls_in_range) simp_all
    then have s: "snd (next_calls k self) = self\<lparr>current_index := int k\<rparr>"
      using that by simp
    show ?thesis
      using that by (simp add: s ImageIterator_iter_def drain_in_range)
  qed
  from a b c d show ?thesis by blast
qed

theorem iter_resumes_index_never_decreases_witness:
  "current_index example_iterator = 0 \<and> (1::nat) \<le> length (image_paths example_iterator)
   \<and> snd (next_calls 1 example_iterator) = example_iterator\<lparr>current_index := 1\<rparr>
   \<and> fst (drain (ImageIterator_iter (snd (next_calls 1 example_iterator))))
       = [''/d/b.png'', ''/d/c.jpeg'']"
  using iter_resumes_index_never_decreases [of example_iterator 1]
  by (simp add: example_iterator_def ImageIterator_next_def getitem_def)

section \<open>Reading a manifest\<close>

lemmas csv_eval = csv_reader_def parse_reset_def parse_line_def parse_process_char_def
  start_field_def add_char_then_def parse_add_char_def parse_save_field_def field_limit_def
  delimiter_def quotechar_def LF_def CR_def lineterminator_def writerow_def join_append_def
  needs_quotes_def





lemma init_in_range:
  assumes "ImageIterator_init fs file = Inr it"
  shows "index_in_range it \<and> current_index it = 0"
  using init_fresh [OF assms] by (simp add: index_in_range_def)

text \<open>
  Claim C10, as amended.  A constructed iterator has index 0, which is in range;
  \<open>iter()\<close> and \<open>next()\<close> keep \<open>0 \<le> current_index \<le> len(image_paths)\<close>.  The method
  \<open>load_annotations\<close>, called again on an iterator, loads the list anew and leaves the
  index, so it keeps the index in range exactly when the new list has at least
  \<open>current_index\<close> elements.  A call of \<open>next()\<close> that
  returns a path returns the element at the index before the call and adds exactly one
  to the index, changing nothing else.  Draining a fresh iterator gives all of
  \<open>image_paths\<close>, that is \<open>len(image_paths)\<close> elements, and then \<open>StopIteration\<close>.
\<close>

theorem index_stays_in_range:
  "(ImageIterator_init fs file = Inr it \<longrightarrow>
      index_in_range it \<and> current_index it = 0
      \<and> drain it = (image_paths it, StopIteration,
                     it\<lparr>current_index := int (length (image_paths it))\<rparr>)
      \<and> length (fst (drain it)) = length (image_paths it))
   \<and> (index_in_range self \<longrightarrow>
        index_in_range (ImageIterator_iter self)
        \<and> index_in_range (snd (ImageIterator_next self)))
   \<and> (index_in_range self \<and> ImageIterator_next self = (Inr x, self') \<longrightarrow>
        getitem (image_paths self) (current_index self) = Inr x
        \<and> x = image_paths self ! nat (current_index self)
        \<and> self' = self\<lparr>current_index := current_index self + 1\<rparr>)
   \<and> (index_in_range self \<and> load_annotations fs self = Inr loaded \<longrightarrow>
        current_index loaded = current_index self
        \<and> (index_in_range loaded
             \<longleftrightarrow> current_index self \<le> int (length (image_paths loaded))))"
proof (intro conjI impI)
  assume a: "ImageIterator_init fs file = Inr it"
  then have r: "index_in_range it \<and> current_index it = 0" by (rule init_in_range)
  then show "index_in_range it" and "current_index it = 0" by simp_all
  from r have d: "drain it = (drop (nat (current_index it)) (image_paths it), StopIteration,
                 it\<lparr>current_index := int (length (image_paths it))\<rparr>)"
    by (intro drain_in_range) (simp_all add: index_in_range_def)
  with r show "drain it = (image_paths it, StopIteration,
                     it\<lparr>current_index := int (length (image_paths it))\<rparr>)"
    by simp
  then show "length (fst (drain it)) = length (image_paths it)" by simp
next
  assume "index_in_range self"
  then show "index_in_range (ImageIterator_iter self)"
    by (simp add: ImageIterator_iter_def)
next
  assume a: "index_in_range self"
  show "index_in_range (snd (ImageIterator_next self))"
  proof (cases "current_index self < int (length (image_paths self))")
    case True
    then show ?thesis using a by (simp add: index_in_range_def next_in_range)
  next
    case False
    then show ?thesis using a by (simp add: next_exhausted)
  qed
next
  assume a: "index_in_range self \<and> ImageIterator_next self = (Inr x, self')"
  then have lt: "current_index self < int (length (image_paths self))"
    by (auto simp: ImageIterator_next_def split: if_splits)
  from a have ge: "0 \<le> current_index self" by (simp add: index_in_range_def)
  from a next_in_range [OF ge lt]
  have eq: "x = image_paths self ! nat (current_index self)"
       "self' = self\<lparr>current_index := current_index self + 1\<rparr>"
    by simp_all
  show "getitem (image_paths self) (current_index self) = Inr x"
    using eq ge lt by (simp add: getitem_in_range)
  show "x = image_paths self ! nat (current_index self)" by (rule eq)
  show "self' = self\<lparr>current_index := current_index self + 1\<rparr>" by (rule eq)
next
  assume a: "index_in_range self \<and> load_annotations fs self = Inr loaded"
  then show c: "current_index loaded = current_index self"
    using load_annotations_fields by blast
  show "index_in_range loaded \<longleftrightarrow> current_index self \<le> int (length (image_paths loaded))"
    using a c by (auto simp: index_in_range_def)
qed

lemma example_manifest_init:
  "ImageIterator_init (fs_with ''m.csv'' example_manifest) ''m.csv''
     = Inr \<lparr>annotation_file = ''m.csv'', image_paths = [''/d/a.jpg'', ''/d/b.png''],
            current_index = 0\<rparr>"
  by (simp add: ImageIterator_init_def load_annotations_def fs_with_def example_manifest_def
        header_line_def csv_eval getitem_def)

theorem index_stays_in_range_witness:
  "ImageIterator_init (fs_with ''m.csv'' example_manifest) ''m.csv''
     = Inr \<lparr>annotation_file = ''m.csv'', image_paths = [''/d/a.jpg'', ''/d/b.png''],
            current_index = 0\<rparr>
   \<and> index_in_range \<lparr>annotation_file = ''m.csv'', image_paths = [''/d/a.jpg'', ''/d/b.png''],
            current_index = 0\<rparr>
   \<and> drain \<lparr>annotation_file = ''m.csv'', image_paths = [''/d/a.jpg'', ''/d/b.png''],
            current_index = 0\<rparr>
       = ([''/d/a.jpg'', ''/d/b.png''], StopIteration,
          \<lparr>annotation_file = ''m.csv'', image_paths = [''/d/a.jpg'', ''/d/b.png''],
            current_index = 2\<rparr>)
   \<and> ImageIterator_next \<lparr>annotation_file = ''m.csv'', image_paths = [''/d/a.jpg'', ''/d/b.png''],
            current_index = 0\<rparr>
       = (Inr ''/d/a.jpg'', \<lparr>annotation_file = ''m.csv'',
            image_paths = [''/d/a.jpg'', ''/d/b.png''], current_index = 1\<rparr>)
   \<and> index_in_range \<lparr>annotation_file = ''m.csv'', image_paths = [''/d/a.jpg'', ''/d/b.png''],
            current_index = 1\<rparr>
   \<and> load_annotations (fs_with ''m.csv'' example_manifest)
         \<lparr>annotation_file = ''m.csv'', image_paths = [''/d/a.jpg'', ''/d/b.png''],
            current_index = 0\<rparr>
       = Inr \<lparr>annotation_file = ''m.csv'', image_paths = [''/d/a.jpg'', ''/d/b.png''],
            current_index = 0\<rparr>"
proof -
  let ?it = "\<lparr>annotation_file = ''m.csv'', image_paths = [''/d/a.jpg'', ''/d/b.png''],
            current_index = 0\<rparr>"
  let ?it1 = "\<lparr>annotation_file = ''m.csv'', image_paths = [''/d/a.jpg'', ''/d/b.png''],
            current_index = 1\<rparr>"
  have nx: "ImageIterator_next ?it = (Inr ''/d/a.jpg'', ?it1)"
    by (simp add: ImageIterator_next_def getitem_def)
  have ld: "load_annotations (fs_with ''m.csv'' example_manifest) ?it = Inr ?it"
    using example_manifest_init
    by (auto simp: ImageIterator_init_def load_annotations_def
          split: option.splits list.splits sum.splits)
  show ?thesis
    using index_stays_in_range [of "fs_with ''m.csv'' example_manifest" "''m.csv''" ?it ?it
            "''/d/a.jpg''" ?it1 ?it]
      example_manifest_init nx ld
    by simp
qed

text \<open>
  The claim as written fails for \<open>load_annotations\<close>: an iterator with two paths, both
  taken, reloads a manifest that now has one data row and is left with index 2 and one
  path.
\<close>

theorem reload_counterexample:
  "index_in_range \<lparr>annotation_file = ''m.csv'', image_paths = [''/d/a.jpg'', ''/d/b.png''],
          current_index = 2\<rparr>
   \<and> load_annotations (fs_with ''m.csv'' (header_line @ ''/d/a.jpg,a.jpg'' @ [CR, LF]))
         \<lparr>annotation_file = ''m.csv'', image_paths = [''/d/a.jpg'', ''/d/b.png''],
          current_index = 2\<rparr>
       = Inr \<lparr>annotation_file = ''m.csv'', image_paths = [''/d/a.jpg''], current_index = 2\<rparr>
   \<and> \<not> index_in_range \<lparr>annotation_file = ''m.csv'', image_paths = [''/d/a.jpg''],
          current_index = 2\<rparr>"
  by (simp add: index_in_range_def load_annotations_def fs_with_def header_line_def csv_eval
        getitem_def)

lemma first_column_heads:
  "\<forall>row \<in> set rows. row \<noteq> [] \<Longrightarrow> first_column (map Inr rows) = Inr (map hd rows)"
proof (induction rows)
  case Nil
  then show ?case by simp
next
  case (Cons row rows)
  then obtain x xs where "row = x # xs" by (cases row) auto
  then show ?case using Cons by (simp add: getitem_def)
qed

text \<open>
  Claim C8.  Two iterators are two objects, each with its own list and index, and
  constructing or draining one changes neither the other nor the file.  Over a manifest
  in which the reader finds a header and then rows that all have a first column, both
  constructions succeed, whatever else differs between the two moments as long as the
  text of the manifest is the same, and draining either gives the same sequence: the
  first columns of the rows in their order, then \<open>StopIteration\<close>.  Over any manifest,
  readable or not, the two outcomes of constructing and draining are equal.
\<close>

theorem reread_gives_same_sequence:
  "(files fs1 file = Some content \<and> files fs2 file = Some content
      \<and> csv_reader content = Inr header # map Inr rows \<and> list_all (\<lambda>row. row \<noteq> []) rows \<longrightarrow>
      ImageIterator_init fs1 file
        = Inr \<lparr>annotation_file = file, image_paths = map hd rows, current_index = 0\<rparr>
      \<and> ImageIterator_init fs2 file
        = Inr \<lparr>annotation_file = file, image_paths = map hd rows, current_index = 0\<rparr>
      \<and> drain \<lparr>annotation_file = file, image_paths = map hd rows, current_index = 0\<rparr>
        = (map hd rows, StopIteration,
           \<lparr>annotation_file = file, image_paths = map hd rows,
            current_index = int (length rows)\<rparr>))
   \<and> (files fs1 file = files fs2 file \<and> read_blocked fs1 file = read_blocked fs2 file \<longrightarrow>
        map_sum id drain (ImageIterator_init fs1 file)
          = map_sum id drain (ImageIterator_init fs2 file))"
proof (intro conjI impI)
  assume a: "files fs1 file = Some content \<and> files fs2 file = Some content
      \<and> csv_reader content = Inr header # map Inr rows \<and> list_all (\<lambda>row. row \<noteq> []) rows"
  then have fc: "first_column (map Inr rows) = Inr (map hd rows)"
    by (intro first_column_heads) (simp add: list_all_iff)
  show "ImageIterator_init fs1 file
        = Inr \<lparr>annotation_file = file, image_paths = map hd rows, current_index = 0\<rparr>"
    using a fc by (simp add: ImageIterator_init_def load_annotations_def)
  show "ImageIterator_init fs2 file
        = Inr \<lparr>annotation_file = file, image_paths = map hd rows, current_index = 0\<rparr>"
    using a fc by (simp add: ImageIterator_init_def load_annotations_def)
  show "drain \<lparr>annotation_file = file, image_paths = map hd rows, current_index = 0\<rparr>
        = (map hd rows, StopIteration,
           \<lparr>annotation_file = file, image_paths = map hd rows,
            current_index = int (length rows)\<rparr>)"
    by (simp add: drain_in_range)
next
  assume "files fs1 file = files fs2 file \<and> read_blocked fs1 file = read_blocked fs2 file"
  then show "map_sum id drain (ImageIterator_init fs1 file)
          = map_sum id drain (ImageIterator_init fs2 file)"
    by (cases "files fs2 file") (simp_all add: ImageIterator_init_def load_annotations_def)
qed

lemma example_manifest_rows:
  "csv_reader example_manifest
     = Inr [''absolute_path'', ''relative_path'']
       # map Inr [[''/d/a.jpg'', ''a.jpg''], [''/d/b.png'', ''b.png'']]"
  by (simp add: example_manifest_def header_line_def csv_eval)

theorem reread_gives_same_sequence_witness:
  "files (fs_with ''m.csv'' example_manifest) ''m.csv'' = Some example_manifest
   \<and> files ((fs_with ''m.csv'' example_manifest)
               \<lparr>files := (files (fs_with ''m.csv'' example_manifest))(''other.txt'' \<mapsto> ''x''),
                 write_blocked := (\<lambda>p. Some No_Permission)\<rparr>) ''m.csv''
       = Some example_manifest
   \<and> csv_reader example_manifest
       = Inr [''absolute_path'', ''relative_path'']
         # map Inr [[''/d/a.jpg'', ''a.jpg''], [''/d/b.png'', ''b.png'']]
   \<and> ImageIterator_init (fs_with ''m.csv'' example_manifest) ''m.csv''
       = Inr \<lparr>annotation_file = ''m.csv'', image_paths = [''/d/a.jpg'', ''/d/b.png''],
              current_index = 0\<rparr>
   \<and> ImageIterator_init ((fs_with ''m.csv'' example_manifest)
               \<lparr>files := (files (fs_with ''m.csv'' example_manifest))(''other.txt'' \<mapsto> ''x''),
                 write_blocked := (\<lambda>p. Some No_Permission)\<rparr>) ''m.csv''
       = Inr \<lparr>annotation_file = ''m.csv'', image_paths = [''/d/a.jpg'', ''/d/b.png''],
              current_index = 0\<rparr>
   \<and> drain \<lparr>annotation_file = ''m.csv'', image_paths = [''/d/a.jpg'', ''/d/b.png''],
              current_index = 0\<rparr>
       = ([''/d/a.jpg'', ''/d/b.png''], StopIteration,
          \<lparr>annotation_file = ''m.csv'', image_paths = [''/d/a.jpg'', ''/d/b.png''],
           current_index = 2\<rparr>)"
proof -
  let ?fs1 = "fs_with ''m.csv'' example_manifest"
  let ?fs2 = "?fs1\<lparr>files := (files ?fs1)(''other.txt'' \<mapsto> ''x''),
                  write_blocked := (\<lambda>p. Some No_Permission)\<rparr>"
  have f1: "files ?fs1 ''m.csv'' = Some example_manifest" by (simp add: fs_with_def)
  have f2: "files ?fs2 ''m.csv'' = Some example_manifest" by (simp add: fs_with_def)
  have ne: "list_all (\<lambda>row. row \<noteq> []) [[''/d/a.jpg'', ''a.jpg''], [''/d/b.png'', ''b.png'']]"
    by simp
  from reread_gives_same_sequence [of ?fs1 "''m.csv''" example_manifest ?fs2
         "[''absolute_path'', ''relative_path'']"
         "[[''/d/a.jpg'', ''a.jpg''], [''/d/b.png'', ''b.png'']]"]
       f1 f2 example_manifest_rows ne
  show ?thesis by simp
qed

text \<open>
  Claim C4, as amended.  Over a manifest in which the reader finds the header row and
  nothing else, the constructor succeeds with an empty list of paths, and the first
  \<open>next()\<close> raises \<open>StopIteration\<close>.  Over a file with no text at all the constructor
  does not succeed: \<open>next(reader)\<close> finds no row to skip and its \<open>StopIteration\<close>
  leaves the constructor.
\<close>

theorem header_only_or_empty_manifest:
  "(files fs file = Some content \<and> csv_reader content = [Inr header] \<longrightarrow>
      ImageIterator_init fs file
        = Inr \<lparr>annotation_file = file, image_paths = [], current_index = 0\<rparr>
      \<and> ImageIterator_next \<lparr>annotation_file = file, image_paths = [], current_index = 0\<rparr>
        = (Inl StopIteration, \<lparr>annotation_file = file, image_paths = [], current_index = 0\<rparr>))
   \<and> (files fs file = Some [] \<longrightarrow> ImageIterator_init fs file = Inl StopIteration)"
proof (intro conjI impI)
  assume a: "files fs file = Some content \<and> csv_reader content = [Inr header]"
  then show "ImageIterator_init fs file
        = Inr \<lparr>annotation_file = file, image_paths = [], current_index = 0\<rparr>"
    by (simp add: ImageIterator_init_def load_annotations_def)
  show "ImageIterator_next \<lparr>annotation_file = file, image_paths = [], current_index = 0\<rparr>
        = (Inl StopIteration, \<lparr>annotation_file = file, image_paths = [], current_index = 0\<rparr>)"
    by (simp add: next_exhausted)
next
  assume "files fs file = Some []"
  moreover have "csv_reader [] = []" by (simp add: csv_reader_def parse_reset_def)
  ultimately show "ImageIterator_init fs file = Inl StopIteration"
    by (simp add: ImageIterator_init_def load_annotations_def)
qed

theorem header_only_or_empty_manifest_witness:
  "files (fs_with ''m.csv'' header_line) ''m.csv'' = Some header_line
   \<and> csv_reader header_line = [Inr [''absolute_path'', ''relative_path'']]
   \<and> ImageIterator_init (fs_with ''m.csv'' header_line) ''m.csv''
        = Inr \<lparr>annotation_file = ''m.csv'', image_paths = [], current_index = 0\<rparr>
   \<and> files (fs_with ''m.csv'' []) ''m.csv'' = Some []
   \<and> ImageIterator_init (fs_with ''m.csv'' []) ''m.csv'' = Inl StopIteration"
proof -
  have rd: "csv_reader header_line = [Inr [''absolute_path'', ''relative_path'']]"
    by (simp add: csv_eval header_line_def)
  have f1: "files (fs_with ''m.csv'' header_line) ''m.csv'' = Some header_line"
    by (simp add: fs_with_def)
  have f2: "files (fs_with ''m.csv'' []) ''m.csv'' = Some []"
    by (simp add: fs_with_def)
  show ?thesis
    using header_only_or_empty_manifest [of "fs_with ''m.csv'' header_line" "''m.csv''"
            header_line "[''absolute_path'', ''relative_path'']"]
      header_only_or_empty_manifest [of "fs_with ''m.csv'' []" "''m.csv''"]
      rd f1 f2
    by simp
qed

text \<open>The claim as written fails on the empty file: no iterator is constructed.\<close>

theorem empty_manifest_counterexample:
  "files (fs_with ''m.csv'' []) ''m.csv'' = Some []
   \<and> ImageIterator_init (fs_with ''m.csv'' []) ''m.csv'' = Inl StopIteration
   \<and> \<not> (\<exists>it. ImageIterator_init (fs_with ''m.csv'' []) ''m.csv'' = Inr it
            \<and> image_paths it = [])"
  by (simp add: ImageIterator_init_def load_annotations_def fs_with_def csv_reader_def
        parse_reset_def)

section \<open>The files collected by the walk\<close>











section \<open>The text of the manifest\<close>

lemma relpath_nonempty: "path \<noteq> [] \<Longrightarrow> \<exists>r. relpath cwd path start = Inr r"
  by (simp add: relpath_def Let_def)


lemma writerow_two:
  "writerow [a, r] = join_append a @ [delimiter] @ join_append r @ [CR, LF]"
  by (simp add: writerow_def lineterminator_def)


lemma header_line_row: "header_line = data_line ''absolute_path'' ''relative_path''"
  by (simp add: header_line_def writerow_two data_line_def)

lemma annotation_row_fields:
  "annotation_row cwd manifest p = Inr row \<longleftrightarrow>
   (\<exists>r. relpath cwd p (dirname manifest) = Inr r \<and> row = [abspath cwd p, r])"
  by (auto simp: annotation_row_def split: sum.splits)

text \<open>The rows of a list of image paths, when every path has one and every row can be
  written: the loop writes one data line for each, in order.\<close>

lemma write_rows_text:
  "\<forall>p \<in> set paths. \<exists>a r. annotation_row cwd manifest p = Inr [a, r]
       \<and> list_all (encodable fs) (data_line a r) \<Longrightarrow>
   \<exists>rels. map (\<lambda>p. relpath cwd p (dirname manifest)) paths = map Inr rels
     \<and> write_rows fs cwd manifest paths out
         = (out @ concat (map2 (\<lambda>p r. data_line (abspath cwd p) r) paths rels), None)"
proof (induction paths arbitrary: out)
  case Nil
  then show ?case by simp
next
  case (Cons p ps)
  then obtain a r where row: "annotation_row cwd manifest p = Inr [a, r]"
    and enc: "list_all (encodable fs) (data_line a r)"
    by auto
  from row have r: "relpath cwd p (dirname manifest) = Inr r" and a: "a = abspath cwd p"
    by (simp_all add: annotation_row_fields)
  let ?out = "out @ data_line (abspath cwd p) r"
  have w: "f_write fs out (writerow [a, r]) = Inr ?out"
    using enc a by (simp add: f_write_def writerow_two data_line_def)
  from Cons.prems have "\<forall>p \<in> set ps. \<exists>a r. annotation_row cwd manifest p = Inr [a, r]
       \<and> list_all (encodable fs) (data_line a r)" by simp
  from Cons.IH [OF this, of ?out] obtain rels where
    rels: "map (\<lambda>p. relpath cwd p (dirname manifest)) ps = map Inr rels"
      "write_rows fs cwd manifest ps ?out
         = (?out @ concat (map2 (\<lambda>p r. data_line (abspath cwd p) r) ps rels), None)"
    by blast
  have "map (\<lambda>p. relpath cwd p (dirname manifest)) (p # ps) = map Inr (r # rels)"
    using r rels(1) by simp
  moreover have "write_rows fs cwd manifest (p # ps) out
         = (out @ concat (map2 (\<lambda>p r. data_line (abspath cwd p) r) (p # ps) (r # rels)), None)"
    using row w rels(2) by simp
  ultimately show ?case by blast
qed

lemma save_annotations_text:
  assumes "write_blocked fs manifest = None" and "list_all (encodable fs) header_line"
    and "\<forall>p \<in> set paths. \<exists>a r. annotation_row cwd manifest p = Inr [a, r]
           \<and> list_all (encodable fs) (data_line a r)"
  shows "\<exists>rels. map (\<lambda>p. relpath cwd p (dirname manifest)) paths = map Inr rels
     \<and> save_annotations cwd paths manifest fs
         = (fs\<lparr>files := (files fs)(manifest \<mapsto> header_line
               @ concat (map2 (\<lambda>p r. data_line (abspath cwd p) r) paths rels))\<rparr>, None)"
proof -
  from write_rows_text [OF assms(3)] obtain rels where
    rels: "map (\<lambda>p. relpath cwd p (dirname manifest)) paths = map Inr rels"
     "write_rows fs cwd manifest paths header_line
         = (header_line @ concat (map2 (\<lambda>p r. data_line (abspath cwd p) r) paths rels),
            None)"
    by blast
  have "f_write fs [] header_line = Inr header_line"
    using assms(2) by (simp add: f_write_def)
  then have "save_annotations cwd paths manifest fs
         = (fs\<lparr>files := (files fs)(manifest \<mapsto> header_line
               @ concat (map2 (\<lambda>p r. data_line (abspath cwd p) r) paths rels))\<rparr>, None)"
    using assms(1) rels(2) unfolding save_annotations_def header_line_def [symmetric]
    by simp
  with rels(1) show ?thesis by blast
qed





lemmas path_eval2 = abspath_def normpath_def initial_slashes_def norm_step_def isabs_def
  posix_join_def join_step_def startswith_def endswith_def sep_def relpath_def dirname_def
  rstrip_def Let_def









section \<open>Relative paths\<close>

lemma startswith_single: "startswith s [c] \<longleftrightarrow> s \<noteq> [] \<and> hd s = c"
  by (cases s) (simp_all add: startswith_def)

lemma endswith_single: "endswith s [c] \<longleftrightarrow> s \<noteq> [] \<and> last s = c"
proof (cases s rule: rev_cases)
  case Nil
  then show ?thesis by (simp add: endswith_def)
next
  case (snoc ys y)
  then show ?thesis by (simp add: endswith_def)
qed

lemma split_sep_nonempty: "split_sep c s \<noteq> []"
  by (induction s) simp_all

lemma split_sep_append:
  "split_sep c (a @ c # b) = split_sep c a @ split_sep c b"
proof (induction a)
  case Nil
  then show ?case by simp
next
  case (Cons x a)
  then show ?case by (simp add: split_sep_nonempty)
qed

lemma split_sep_free: "c \<notin> set s \<Longrightarrow> split_sep c s = [s]"
  by (induction s) auto

lemma split_sep_parts: "x \<in> set (split_sep c s) \<Longrightarrow> c \<notin> set x"
proof (induction s arbitrary: x)
  case Nil
  then show ?case by simp
next
  case (Cons y s)
  show ?case
  proof (cases "y = c")
    case True
    then show ?thesis using Cons by auto
  next
    case False
    obtain h t where ht: "split_sep c s = h # t"
      using split_sep_nonempty [of c s] by (cases "split_sep c s") auto
    then have "x = y # h \<or> x \<in> set t" using Cons.prems False by simp
    then show ?thesis
    proof
      assume "x = y # h"
      moreover have "c \<notin> set h" using Cons.IH [of h] ht by simp
      ultimately show ?thesis using False by auto
    next
      assume "x \<in> set t"
      then show ?thesis using Cons.IH [of x] ht by simp
    qed
  qed
qed

lemma str_join_Cons:
  "str_join [c] (x # xs) = x @ concat (map ((#) c) xs)"
  by (induction xs arbitrary: x) simp_all

lemma split_sep_parts_joined:
  "\<forall>y \<in> set (x # xs). c \<notin> set y \<Longrightarrow>
   split_sep c (x @ concat (map ((#) c) xs)) = x # xs"
proof (induction xs arbitrary: x)
  case Nil
  then show ?case by (simp add: split_sep_free)
next
  case (Cons y ys)
  then have "split_sep c (y @ concat (map ((#) c) ys)) = y # ys" by simp
  then show ?case using Cons.prems by (simp add: split_sep_append split_sep_free)
qed

lemma split_sep_join:
  "comps \<noteq> [] \<Longrightarrow> \<forall>x \<in> set comps. c \<notin> set x \<Longrightarrow> split_sep c (str_join [c] comps) = comps"
  by (cases comps) (simp_all add: str_join_Cons split_sep_parts_joined del: str_join.simps)

lemma split_sep_leading:
  "split_sep c (replicate k c @ s) = replicate k [] @ split_sep c s"
  by (induction k) simp_all

lemma clean_Nil: "clean []"
  by (simp add: clean_def)

lemma clean_append: "clean (xs @ ys) \<longleftrightarrow> clean xs \<and> clean ys"
  by (simp add: clean_def)

lemma clean_butlast: "clean xs \<Longrightarrow> clean (butlast xs)"
  by (induction xs) (simp_all add: clean_def)

lemma clean_take: "clean xs \<Longrightarrow> clean (take n xs)"
  unfolding clean_def list_all_iff by (meson in_set_takeD)

lemma clean_drop: "clean xs \<Longrightarrow> clean (drop n xs)"
  unfolding clean_def list_all_iff by (meson in_set_dropD)

lemma clean_last: "clean xs \<Longrightarrow> xs \<noteq> [] \<Longrightarrow> last xs \<noteq> ''..''"
  unfolding clean_def list_all_iff using last_in_set by blast

lemma norm_step_clean:
  "0 < k \<Longrightarrow> clean acc \<Longrightarrow> sep \<notin> set x \<Longrightarrow> clean (norm_step k acc x)"
  unfolding norm_step_def
  by (auto simp: clean_append clean_butlast clean_last) (simp_all add: clean_def)

lemma norm_fold_clean:
  "0 < k \<Longrightarrow> clean acc \<Longrightarrow> \<forall>x \<in> set xs. sep \<notin> set x \<Longrightarrow>
   clean (foldl (norm_step k) acc xs)"
  by (induction xs arbitrary: acc) (simp_all add: norm_step_clean)

lemma norm_split_clean:
  "0 < k \<Longrightarrow> clean (foldl (norm_step k) [] (split_sep sep s))"
  by (rule norm_fold_clean) (auto simp: clean_Nil dest: split_sep_parts)

lemma norm_step_push:
  "x \<noteq> [] \<Longrightarrow> x \<noteq> ''.'' \<Longrightarrow> x \<noteq> ''..'' \<Longrightarrow> norm_step k acc x = acc @ [x]"
  by (simp add: norm_step_def)

lemma norm_fold_push:
  "clean ys \<Longrightarrow> foldl (norm_step k) acc ys = acc @ ys"
proof (induction ys arbitrary: acc)
  case Nil
  then show ?case by simp
next
  case (Cons y ys)
  then show ?case by (simp add: clean_def norm_step_push)
qed

lemma norm_step_pop:
  "0 < k \<Longrightarrow> clean acc \<Longrightarrow> norm_step k acc ''..'' = butlast acc"
  using clean_last [of acc] by (auto simp: norm_step_def)

lemma norm_fold_pop:
  "0 < k \<Longrightarrow> clean acc \<Longrightarrow>
   foldl (norm_step k) acc (replicate n ''..'') = take (length acc - n) acc"
proof (induction n arbitrary: acc)
  case 0
  then show ?case by simp
next
  case (Suc n)
  have "foldl (norm_step k) (butlast acc) (replicate n ''..'')
        = take (length (butlast acc) - n) (butlast acc)"
    using Suc.prems by (intro Suc.IH) (simp_all add: clean_butlast)
  also have "\<dots> = take (length acc - Suc n) acc"
    by (simp add: butlast_conv_take min_def)
  finally show ?case using Suc.prems by (simp add: norm_step_pop)
qed

lemma commonprefix_take:
  "commonprefix xs ys = take (length (commonprefix xs ys)) xs
   \<and> commonprefix xs ys = take (length (commonprefix xs ys)) ys"
  by (induction xs ys rule: commonprefix.induct) simp_all

lemma commonprefix_length:
  "length (commonprefix xs ys) \<le> length xs \<and> length (commonprefix xs ys) \<le> length ys"
  by (induction xs ys rule: commonprefix.induct) simp_all

lemma initial_slashes_abs: "isabs s \<Longrightarrow> initial_slashes s = 1 \<or> initial_slashes s = 2"
  by (simp add: initial_slashes_def isabs_def)

lemma normpath_abs:
  assumes "isabs s"
  shows "normpath s = replicate (initial_slashes s) sep
           @ str_join [sep] (foldl (norm_step (initial_slashes s)) [] (split_sep sep s))"
proof -
  have "s \<noteq> []" using assms by (auto simp: isabs_def startswith_def)
  moreover have "replicate (initial_slashes s) sep \<noteq> []"
    using initial_slashes_abs [OF assms] by auto
  ultimately show ?thesis by (simp add: normpath_def Let_def)
qed

lemma components_of_normal:
  assumes "clean comps"
  shows "filter (\<lambda>x. x \<noteq> []) (split_sep sep (replicate k sep @ str_join [sep] comps)) = comps"
proof (cases comps)
  case Nil
  have "split_sep sep (replicate k sep @ []) = replicate k [] @ split_sep sep []"
    by (rule split_sep_leading)
  then show ?thesis using Nil by simp
next
  case (Cons x xs)
  have a: "\<forall>y \<in> set comps. sep \<notin> set y" and b: "\<forall>y \<in> set comps. y \<noteq> []"
    using assms by (auto simp: clean_def list_all_iff)
  have "split_sep sep (str_join [sep] comps) = comps"
    using a Cons by (intro split_sep_join) simp_all
  moreover have "filter (\<lambda>x. x \<noteq> []) comps = comps" using b by (simp add: filter_id_conv)
  ultimately show ?thesis by (simp add: split_sep_leading)
qed

lemma join_fold:
  "a \<noteq> [] \<Longrightarrow> last a \<noteq> sep \<Longrightarrow> \<forall>b \<in> set bs. b \<noteq> [] \<and> sep \<notin> set b \<Longrightarrow>
   foldl join_step a bs = a @ concat (map ((#) sep) bs)"
proof (induction bs arbitrary: a)
  case Nil
  then show ?case by simp
next
  case (Cons b bs)
  have b: "b \<noteq> []" "sep \<notin> set b" using Cons.prems by simp_all
  then have hd: "hd b \<noteq> sep" by (cases b) auto
  have lb: "last b \<noteq> sep" using b last_in_set by metis
  have step: "join_step a b = a @ sep # b"
    using Cons.prems(1,2) b(1) hd by (simp add: join_step_def startswith_single endswith_single)
  have "foldl join_step (a @ sep # b) bs = (a @ sep # b) @ concat (map ((#) sep) bs)"
    using Cons.prems b lb by (intro Cons.IH) simp_all
  then show ?case by (simp add: step)
qed

lemma join_relative_list:
  assumes "rel \<noteq> []" and "\<forall>b \<in> set rel. b \<noteq> [] \<and> sep \<notin> set b"
  shows "posix_join (hd rel) (tl rel) = str_join [sep] rel"
proof -
  obtain a bs where r: "rel = a # bs" using assms(1) by (cases rel) auto
  have a: "a \<noteq> []" "sep \<notin> set a" using assms(2) r by simp_all
  then have "last a \<noteq> sep" using last_in_set by metis
  then have "foldl join_step a bs = a @ concat (map ((#) sep) bs)"
    using a assms(2) r by (intro join_fold) simp_all
  then show ?thesis by (simp add: r posix_join_def str_join_Cons del: str_join.simps)
qed

lemma initial_slashes_extend:
  assumes "isabs X" and "r \<noteq> []" and "hd r \<noteq> sep"
  shows "initial_slashes (if last X = sep then X @ r else X @ sep # r) = initial_slashes X"
proof -
  obtain c r' where r: "r = c # r'" "c \<noteq> sep" using assms(2,3) by (cases r) auto
  obtain X1 where X: "X = sep # X1" using assms(1)
    by (cases X) (auto simp: isabs_def startswith_def)
  show ?thesis
  proof (cases X1)
    case Nil
    then show ?thesis using X r by (simp add: initial_slashes_def startswith_def)
  next
    case (Cons x2 X2)
    note c1 = this
    show ?thesis
    proof (cases X2)
      case Nil
      then show ?thesis using X r c1 by (simp add: initial_slashes_def startswith_def)
    next
      case (Cons x3 X3)
      then show ?thesis using X r c1 by (simp add: initial_slashes_def startswith_def)
    qed
  qed
qed

lemma norm_extend:
  "foldl (norm_step k) [] (split_sep sep (if last X = sep \<and> X \<noteq> [] then X @ r else X @ sep # r))
   = foldl (norm_step k) (foldl (norm_step k) [] (split_sep sep X)) (split_sep sep r)"
proof (cases "last X = sep \<and> X \<noteq> []")
  case True
  then obtain X' where X: "X = X' @ [sep]" by (metis append_butlast_last_id)
  have "split_sep sep X = split_sep sep X' @ [[]]"
    unfolding X using split_sep_append [of sep X' "[]"] by simp
  moreover have "split_sep sep (X @ r) = split_sep sep X' @ split_sep sep r"
    unfolding X using split_sep_append [of sep X' r] by simp
  ultimately show ?thesis using True by (simp add: norm_step_def)
next
  case False
  then show ?thesis using split_sep_append [of sep X r] by auto
qed

lemma absolute_text_isabs: "isabs cwd \<Longrightarrow> isabs (absolute_text cwd s)"
  by (auto simp: absolute_text_def posix_join_def join_step_def isabs_def startswith_single)

lemma leading_pos: "isabs cwd \<Longrightarrow> leading cwd s = 1 \<or> leading cwd s = 2"
  unfolding leading_def by (intro initial_slashes_abs absolute_text_isabs)

lemma components_clean: "isabs cwd \<Longrightarrow> clean (components cwd s)"
  unfolding components_def using leading_pos [of cwd s] by (intro norm_split_clean) auto

lemma abspath_normal:
  "isabs cwd \<Longrightarrow>
   abspath cwd s = replicate (leading cwd s) sep @ str_join [sep] (components cwd s)"
  using normpath_abs [OF absolute_text_isabs, of cwd s]
  by (simp add: abspath_def absolute_text_def components_def leading_def)

lemma abspath_components:
  "isabs cwd \<Longrightarrow> filter (\<lambda>x. x \<noteq> []) (split_sep sep (abspath cwd s)) = components cwd s"
  by (simp add: abspath_normal components_of_normal components_clean)

lemma clean_parts: "clean xs \<Longrightarrow> x \<in> set xs \<Longrightarrow> x \<noteq> [] \<and> sep \<notin> set x"
  by (simp add: clean_def list_all_iff)

lemma str_join_head:
  "xs \<noteq> [] \<Longrightarrow> hd xs \<noteq> [] \<Longrightarrow> str_join [sep] xs \<noteq> [] \<and> hd (str_join [sep] xs) = hd (hd xs)"
  by (cases xs) (simp_all add: str_join_Cons del: str_join.simps)

lemma abspath_double_slash:
  assumes "isabs cwd"
  shows "startswith (abspath cwd s) [sep, sep] \<longleftrightarrow> leading cwd s = 2"
proof -
  let ?c = "components cwd s"
  have cl: "clean ?c" using assms by (rule components_clean)
  have j: "str_join [sep] ?c = [] \<or> hd (str_join [sep] ?c) \<noteq> sep"
  proof (cases ?c)
    case Nil
    then show ?thesis by simp
  next
    case (Cons x xs)
    then have x: "x \<noteq> []" "sep \<notin> set x" using clean_parts [OF cl, of x] by simp_all
    then have "hd x \<noteq> sep" by (cases x) auto
    moreover have "hd (str_join [sep] ?c) = hd (hd ?c)"
      using str_join_head [of ?c] Cons x by simp
    ultimately show ?thesis using Cons by simp
  qed
  from leading_pos [OF assms, of s] show ?thesis
  proof
    assume k: "leading cwd s = 1"
    from j show ?thesis
      by (cases "str_join [sep] ?c")
         (simp_all add: abspath_normal [OF assms] k startswith_def)
  next
    assume k: "leading cwd s = 2"
    then show ?thesis
      by (simp add: abspath_normal [OF assms] startswith_def numeral_2_eq_2)
  qed
qed

lemma relpath_form:
  assumes "isabs cwd" and "relpath cwd path start = Inr rel"
  shows "rel = (if rel_list cwd path start = [] then ''.''
                else str_join [sep] (rel_list cwd path start))"
proof -
  have ne: "path \<noteq> []" using assms(2) by (auto simp: relpath_def)
  have parts: "\<forall>b \<in> set (rel_list cwd path start). b \<noteq> [] \<and> sep \<notin> set b"
  proof
    fix b assume "b \<in> set (rel_list cwd path start)"
    then have "b = ''..'' \<or> b \<in> set (components cwd path)"
      unfolding rel_list_def by (auto dest: in_set_dropD)
    then show "b \<noteq> [] \<and> sep \<notin> set b"
      using clean_parts [OF components_clean [OF assms(1)], of b path]
      by (auto simp: sep_def)
  qed
  have "relpath cwd path start
        = (if rel_list cwd path start = [] then Inr ''.''
           else Inr (posix_join (hd (rel_list cwd path start)) (tl (rel_list cwd path start))))"
    using ne by (simp add: relpath_def Let_def abspath_components [OF assms(1)] rel_list_def)
  then show ?thesis
    using assms(2) parts by (auto simp: join_relative_list split: if_splits)
qed

lemma rel_list_parts:
  assumes "isabs cwd"
  shows "\<forall>b \<in> set (rel_list cwd path start). b \<noteq> [] \<and> sep \<notin> set b"
proof
  fix b assume "b \<in> set (rel_list cwd path start)"
  then have "b = ''..'' \<or> b \<in> set (components cwd path)"
    unfolding rel_list_def by (auto dest: in_set_dropD)
  then show "b \<noteq> [] \<and> sep \<notin> set b"
    using clean_parts [OF components_clean [OF assms], of b path]
    by (auto simp: sep_def)
qed

lemma rel_text_head:
  assumes "isabs cwd" and "relpath cwd path start = Inr rel"
  shows "rel \<noteq> [] \<and> hd rel \<noteq> sep"
proof (cases "rel_list cwd path start")
  case Nil
  then show ?thesis using relpath_form [OF assms] by (simp add: sep_def)
next
  case (Cons x xs)
  then have x: "x \<noteq> []" "sep \<notin> set x" using rel_list_parts [OF assms(1), of path start] by simp_all
  then have "hd x \<noteq> sep" by (cases x) auto
  then show ?thesis
    using relpath_form [OF assms] Cons x str_join_head [of "x # xs"] by simp
qed

lemma rel_text_split:
  assumes "isabs cwd" and "relpath cwd path start = Inr rel" and "0 < k"
  shows "foldl (norm_step k) (components cwd start) (split_sep sep rel) = components cwd path"
proof -
  let ?st = "components cwd start" and ?pl = "components cwd path"
  let ?i = "length (commonprefix ?st ?pl)"
  have st: "clean ?st" and pl: "clean ?pl" using assms(1) by (simp_all add: components_clean)
  have tk: "take ?i ?st = take ?i ?pl" using commonprefix_take [of ?st ?pl] by metis
  have le: "?i \<le> length ?st" "?i \<le> length ?pl" using commonprefix_length [of ?st ?pl] by simp_all
  show ?thesis
  proof (cases "rel_list cwd path start = []")
    case True
    then have "length ?st = ?i" "drop ?i ?pl = []" using le by (simp_all add: rel_list_def)
    then have "?pl = ?st" using tk le by (metis append_take_drop_id append_Nil2 take_all order_refl)
    moreover have "rel = ''.''" using relpath_form [OF assms(1,2)] True by simp
    ultimately show ?thesis by (simp add: norm_step_def sep_def)
  next
    case False
    then have rel: "rel = str_join [sep] (rel_list cwd path start)"
      using relpath_form [OF assms(1,2)] by simp
    have "split_sep sep rel = rel_list cwd path start"
      unfolding rel using False rel_list_parts [OF assms(1), of path start]
      by (intro split_sep_join) simp_all
    then have "foldl (norm_step k) ?st (split_sep sep rel)
         = foldl (norm_step k) (foldl (norm_step k) ?st (replicate (length ?st - ?i) ''..''))
             (drop ?i ?pl)"
      by (simp add: rel_list_def)
    also have "\<dots> = foldl (norm_step k) (take (length ?st - (length ?st - ?i)) ?st) (drop ?i ?pl)"
      using assms(3) st by (simp add: norm_fold_pop)
    also have "\<dots> = take ?i ?st @ drop ?i ?pl"
      using le pl by (simp add: norm_fold_push clean_drop)
    also have "\<dots> = ?pl" using tk by simp
    finally show ?thesis .
  qed
qed

lemma absolute_text_join:
  assumes "isabs cwd" and "rel \<noteq> []" and "hd rel \<noteq> sep"
  shows "absolute_text cwd (posix_join d [rel])
         = (if last (absolute_text cwd d) = sep then absolute_text cwd d @ rel
            else absolute_text cwd d @ sep # rel)"
proof -
  have c: "cwd \<noteq> []" "hd cwd = sep" using assms(1) by (simp_all add: isabs_def startswith_single)
  show ?thesis
  proof (cases "d = []")
    case True
    then show ?thesis using c assms(2,3)
      by (simp add: absolute_text_def posix_join_def join_step_def isabs_def
            startswith_single endswith_single)
  next
    case False
    then show ?thesis using c assms(2,3)
      by (simp add: absolute_text_def posix_join_def join_step_def isabs_def
            startswith_single endswith_single)
  qed
qed

lemma abspath_of_joined:
  assumes "isabs cwd" and "relpath cwd path start = Inr rel"
  shows "abspath cwd (posix_join start [rel])
         = replicate (leading cwd start) sep @ str_join [sep] (components cwd path)"
proof -
  let ?X = "absolute_text cwd start"
  let ?Z = "absolute_text cwd (posix_join start [rel])"
  have r: "rel \<noteq> []" "hd rel \<noteq> sep" using rel_text_head [OF assms] by simp_all
  have X: "isabs ?X" using assms(1) by (rule absolute_text_isabs)
  then have Xne: "?X \<noteq> []" by (auto simp: isabs_def startswith_def)
  have Z: "?Z = (if last ?X = sep then ?X @ rel else ?X @ sep # rel)"
    using assms(1) r by (rule absolute_text_join)
  have k: "initial_slashes ?Z = leading cwd start"
    unfolding Z leading_def using X r by (rule initial_slashes_extend)
  have pos: "0 < leading cwd start" using leading_pos [OF assms(1), of start] by auto
  have "foldl (norm_step (leading cwd start)) [] (split_sep sep ?Z)
        = foldl (norm_step (leading cwd start)) (components cwd start) (split_sep sep rel)"
    unfolding Z components_def
    using norm_extend [of "leading cwd start" ?X rel] Xne by simp
  also have "\<dots> = components cwd path" using assms pos by (rule rel_text_split)
  finally have comps: "components cwd (posix_join start [rel]) = components cwd path"
    by (simp add: components_def leading_def k)
  show ?thesis
    using abspath_normal [OF assms(1), of "posix_join start [rel]"] comps k
    by (simp add: leading_def)
qed

text \<open>
  Claim C5, as amended.  The working directory is an absolute path, as \<open>os.getcwd()\<close>
  gives it.  For a row \<open>[absolute_path, relative_path]\<close> that \<open>save_annotations\<close>
  writes for an image, joining the directory of the manifest with \<open>relative_path\<close>
  and taking \<open>abspath\<close> of the result gives \<open>absolute_path\<close> again, provided the
  absolute path of the image and the absolute path of the manifest's directory either
  both begin with exactly two slashes or both do not.
\<close>

theorem relative_path_resolves:
  assumes "isabs cwd"
    and "annotation_row cwd manifest image_path = Inr [absolute_path, relative_path]"
    and "startswith (abspath cwd image_path) [sep, sep]
           = startswith (abspath cwd (dirname manifest)) [sep, sep]"
  shows "abspath cwd (posix_join (dirname manifest) [relative_path]) = absolute_path"
proof -
  from assms(2) have a: "absolute_path = abspath cwd image_path"
    and r: "relpath cwd image_path (dirname manifest) = Inr relative_path"
    by (auto simp: annotation_row_def split: sum.splits)
  have "leading cwd image_path = 2 \<longleftrightarrow> leading cwd (dirname manifest) = 2"
    using assms(3) by (simp add: abspath_double_slash [OF assms(1)])
  then have k: "leading cwd (dirname manifest) = leading cwd image_path"
    using leading_pos [OF assms(1), of image_path] leading_pos [OF assms(1), of "dirname manifest"]
    by auto
  show ?thesis
    unfolding a abspath_of_joined [OF assms(1) r] k
    by (simp add: abspath_normal [OF assms(1)])
qed

lemma ex_row:
  "annotation_row ''/home/u'' ''out/m.csv'' ''dl/a.jpg''
     = Inr [''/home/u/dl/a.jpg'', ''../dl/a.jpg'']"
  by (simp add: annotation_row_def path_eval2)

theorem relative_path_resolves_witness:
  "isabs ''/home/u''
   \<and> annotation_row ''/home/u'' ''out/m.csv'' ''dl/a.jpg''
       = Inr [''/home/u/dl/a.jpg'', ''../dl/a.jpg'']
   \<and> startswith (abspath ''/home/u'' ''dl/a.jpg'') [sep, sep]
       = startswith (abspath ''/home/u'' (dirname ''out/m.csv'')) [sep, sep]
   \<and> abspath ''/home/u'' (posix_join (dirname ''out/m.csv'') [''../dl/a.jpg''])
       = ''/home/u/dl/a.jpg''"
proof -
  have c: "isabs ''/home/u''" by (simp add: isabs_def startswith_def sep_def)
  have s: "startswith (abspath ''/home/u'' ''dl/a.jpg'') [sep, sep]
       = startswith (abspath ''/home/u'' (dirname ''out/m.csv'')) [sep, sep]"
    by (simp add: path_eval2)
  from relative_path_resolves [OF c ex_row s] c ex_row s show ?thesis by simp
qed

text \<open>
  The claim as written fails when only one of the two begins with two slashes, which
  \<open>normpath\<close> keeps: \<open>relpath\<close> drops them, so the path resolved from the manifest's
  directory has one slash where the written absolute path has two.
\<close>

lemma ex_abs2: "abspath ''/home/u'' ''//srv/a.jpg'' = ''//srv/a.jpg''"
  by (simp add: path_eval2 numeral_2_eq_2)

lemma ex_abs3: "abspath ''/home/u'' ''/data'' = ''/data''"
  by (simp add: path_eval2)

lemma ex_dir: "dirname ''/data/m.csv'' = ''/data''"
  by (simp add: dirname_def rstrip_def sep_def)

lemma ex_rel2: "relpath ''/home/u'' ''//srv/a.jpg'' ''/data'' = Inr ''../srv/a.jpg''"
  by (simp add: relpath_def ex_abs2 ex_abs3 Let_def sep_def posix_join_def join_step_def
        startswith_def endswith_def)

lemma ex_abs4: "abspath ''/home/u'' (posix_join ''/data'' [''../srv/a.jpg'']) = ''/srv/a.jpg''"
  by (simp add: path_eval2)

theorem relative_path_counterexample:
  "annotation_row ''/home/u'' ''/data/m.csv'' ''//srv/a.jpg''
     = Inr [''//srv/a.jpg'', ''../srv/a.jpg'']
   \<and> abspath ''/home/u'' (posix_join (dirname ''/data/m.csv'') [''../srv/a.jpg''])
       = ''/srv/a.jpg''
   \<and> abspath ''/home/u'' (posix_join (dirname ''/data/m.csv'') [''../srv/a.jpg''])
       \<noteq> ''//srv/a.jpg''"
  by (simp add: annotation_row_def ex_dir ex_abs2 ex_rel2 ex_abs4)

section \<open>Reading back a written manifest\<close>

lemma readlines_nonempty: "cs \<noteq> [] \<Longrightarrow> readlines cs \<noteq> []"
  by (cases cs) (auto split: list.splits)

lemma readlines_Nil: "readlines [] = []"
  by simp

lemma reader_iter_char:
  assumes "c \<noteq> LF" and "cs \<noteq> []"
  shows "reader_iter self (readlines (c # cs))
         = (case parse_process_char self (Some c) of
              Inl e \<Rightarrow> [Inl e]
            | Inr self' \<Rightarrow> reader_iter self' (readlines cs))"
proof -
  obtain l ls where r: "readlines cs = l # ls"
    using readlines_nonempty [OF assms(2)] by (cases "readlines cs") auto
  show ?thesis
    using assms(1) by (simp add: r parse_line_def split: sum.splits)
qed

lemma reader_iter_newline:
  "reader_iter self (readlines (LF # cs))
   = (case parse_line self [LF] of
        Inl e \<Rightarrow> [Inl e]
      | Inr self' \<Rightarrow>
          if state self' = START_RECORD
          then Inr (row_fields self') # reader_iter parse_reset (readlines cs)
          else reader_iter self' (readlines cs))"
  by simp

declare readlines.simps [simp del]

lemma universal_newlines_plain:
  "c \<noteq> CR \<Longrightarrow> universal_newlines (c # s) = c # universal_newlines s"
  by (cases s) simp_all

lemma universal_newlines_line:
  "CR \<notin> set x \<Longrightarrow> universal_newlines (x @ CR # LF # y) = x @ LF # universal_newlines y"
  by (induction x) (auto simp: universal_newlines_plain)

lemma universal_newlines_none:
  "CR \<notin> set x \<Longrightarrow> universal_newlines x = x"
  by (induction x) (auto simp: universal_newlines_plain)

lemma special_distinct:
  "quotechar \<noteq> LF" "quotechar \<noteq> CR" "delimiter \<noteq> LF" "delimiter \<noteq> CR"
  "quotechar \<noteq> delimiter" "LF \<noteq> CR"
  by (simp_all add: quotechar_def delimiter_def LF_def CR_def)

lemma in_field_char:
  assumes "state self = IN_FIELD" and "c \<noteq> LF" and "c \<noteq> CR" and "c \<noteq> delimiter"
    and "length (field self) < field_limit"
  shows "parse_process_char self (Some c) = Inr (self\<lparr>field := field self @ [c]\<rparr>)"
  using assms by (simp add: parse_process_char_def parse_add_char_def)

lemma in_quoted_char:
  assumes "state self = IN_QUOTED_FIELD" and "c \<noteq> quotechar"
    and "length (field self) < field_limit"
  shows "parse_process_char self (Some c) = Inr (self\<lparr>field := field self @ [c]\<rparr>)"
  using assms by (simp add: parse_process_char_def parse_add_char_def)

lemma in_quoted_quote:
  assumes "state self = IN_QUOTED_FIELD"
  shows "parse_process_char self (Some quotechar) = Inr (self\<lparr>state := QUOTE_IN_QUOTED_FIELD\<rparr>)"
  using assms by (simp add: parse_process_char_def)

lemma quote_quote:
  assumes "state self = QUOTE_IN_QUOTED_FIELD" and "length (field self) < field_limit"
  shows "parse_process_char self (Some quotechar)
         = Inr (self\<lparr>field := field self @ [quotechar], state := IN_QUOTED_FIELD\<rparr>)"
  using assms by (simp add: parse_process_char_def add_char_then_def parse_add_char_def)

lemma in_quoted_eol:
  assumes "state self = IN_QUOTED_FIELD"
  shows "parse_process_char self None = Inr self"
  using assms by (simp add: parse_process_char_def)

lemma unquoted_run:
  assumes "state self = IN_FIELD" and "LF \<notin> set w" and "CR \<notin> set w" and "delimiter \<notin> set w"
    and "length (field self) + length w \<le> field_limit" and "rest \<noteq> []"
  shows "reader_iter self (readlines (w @ rest))
         = reader_iter (self\<lparr>field := field self @ w\<rparr>) (readlines rest)"
  using assms
proof (induction w arbitrary: self)
  case Nil
  then show ?case by simp
next
  case (Cons c w)
  let ?s = "self\<lparr>field := field self @ [c]\<rparr>"
  have c: "c \<noteq> LF" "c \<noteq> CR" "c \<noteq> delimiter" using Cons.prems by auto
  have step: "parse_process_char self (Some c) = Inr ?s"
    using Cons.prems c by (intro in_field_char) simp_all
  have ne: "w @ rest \<noteq> []" using Cons.prems by simp
  have "reader_iter self (readlines (c # w @ rest)) = reader_iter ?s (readlines (w @ rest))"
    by (simp add: reader_iter_char [OF c(1) ne] step)
  also have "\<dots> = reader_iter (?s\<lparr>field := field ?s @ w\<rparr>) (readlines rest)"
    using Cons.prems by (intro Cons.IH) simp_all
  finally show ?case by simp
qed

lemma quoted_run:
  assumes "state self = IN_QUOTED_FIELD" and "CR \<notin> set w"
    and "length (field self) + length w \<le> field_limit" and "rest \<noteq> []"
  shows "reader_iter self (readlines (escaped w @ rest))
         = reader_iter (self\<lparr>field := field self @ w\<rparr>) (readlines rest)"
  using assms
proof (induction w arbitrary: self)
  case Nil
  then show ?case by (simp add: escaped_def)
next
  case (Cons c w)
  let ?s = "self\<lparr>field := field self @ [c]\<rparr>"
  have lt: "length (field self) < field_limit" using Cons.prems by simp
  have ih: "reader_iter ?s (readlines (escaped w @ rest))
            = reader_iter (?s\<lparr>field := field ?s @ w\<rparr>) (readlines rest)"
    using Cons.prems by (intro Cons.IH) simp_all
  have ne: "escaped w @ rest \<noteq> []" using Cons.prems by simp
  have "reader_iter self (readlines (escaped (c # w) @ rest))
        = reader_iter ?s (readlines (escaped w @ rest))"
  proof (cases "c = quotechar")
    case True
    let ?q = "self\<lparr>state := QUOTE_IN_QUOTED_FIELD\<rparr>"
    have e: "escaped (c # w) @ rest = quotechar # quotechar # escaped w @ rest"
      using True by (simp add: escaped_def)
    have s1: "parse_process_char self (Some quotechar) = Inr ?q"
      using Cons.prems by (intro in_quoted_quote) simp
    have s2: "parse_process_char ?q (Some quotechar)
              = Inr (?q\<lparr>field := field ?q @ [quotechar], state := IN_QUOTED_FIELD\<rparr>)"
      using lt by (intro quote_quote) simp_all
    have same: "self\<lparr>field := field self @ [quotechar], state := IN_QUOTED_FIELD\<rparr> = ?s"
      using Cons.prems(1) True by simp
    have "reader_iter self (readlines (quotechar # quotechar # escaped w @ rest))
          = reader_iter ?q (readlines (quotechar # escaped w @ rest))"
      by (simp add: reader_iter_char [OF special_distinct(1)] s1)
    also have "\<dots> = reader_iter ?s (readlines (escaped w @ rest))"
      by (simp add: reader_iter_char [OF special_distinct(1) ne] s2 same)
    finally show ?thesis unfolding e .
  next
    case False
    have e: "escaped (c # w) @ rest = c # escaped w @ rest"
      using False by (simp add: escaped_def)
    have s1: "parse_process_char self (Some c) = Inr ?s"
      using Cons.prems False lt by (intro in_quoted_char) simp_all
    show ?thesis
    proof (cases "c = LF")
      case True
      have st: "state ?s = IN_QUOTED_FIELD" using Cons.prems by simp
      have pl: "parse_line self [LF] = Inr (self\<lparr>field := field self @ [LF]\<rparr>)"
        using s1 True in_quoted_eol [OF st] by (simp add: parse_line_def)
      have e': "escaped (LF # w) @ rest = LF # escaped w @ rest"
        using e True by simp
      show ?thesis
        unfolding True e' using Cons.prems(1) by (simp add: reader_iter_newline pl)
    next
      case False
      show ?thesis
        unfolding e by (simp add: reader_iter_char [OF False ne] s1)
    qed
  qed
  then show ?case using ih by simp
qed

lemma join_append_escaped:
  "join_append w = (if list_ex needs_quotes w then quotechar # escaped w @ [quotechar]
                    else escaped w)"
  by (simp add: join_append_def escaped_def)

lemma escaped_plain: "quotechar \<notin> set w \<Longrightarrow> escaped w = w"
  by (induction w) (auto simp: escaped_def)

lemma plain_chars:
  "\<not> list_ex needs_quotes w \<Longrightarrow>
   delimiter \<notin> set w \<and> quotechar \<notin> set w \<and> LF \<notin> set w \<and> CR \<notin> set w"
  by (auto simp: list_ex_iff needs_quotes_def lineterminator_def)

lemma start_plain_char:
  assumes "state self = START_RECORD \<or> state self = START_FIELD" and "field self = []"
    and "c \<noteq> LF" and "c \<noteq> CR" and "c \<noteq> quotechar" and "c \<noteq> delimiter"
  shows "parse_process_char self (Some c)
         = Inr \<lparr>state = IN_FIELD, row_fields = row_fields self, field = [c]\<rparr>"
  using assms
  by (auto simp: parse_process_char_def start_field_def add_char_then_def parse_add_char_def
        field_limit_def)

lemma start_quote_char:
  assumes "state self = START_RECORD \<or> state self = START_FIELD" and "field self = []"
  shows "parse_process_char self (Some quotechar)
         = Inr \<lparr>state = IN_QUOTED_FIELD, row_fields = row_fields self, field = []\<rparr>"
  using assms special_distinct
  by (auto simp: parse_process_char_def start_field_def)

lemma field_body:
  assumes "state self = START_RECORD \<or> state self = START_FIELD" and "field self = []"
    and "w \<noteq> []" and "CR \<notin> set w" and "length w \<le> field_limit" and "rest \<noteq> []"
  shows "reader_iter self (readlines (join_append w @ rest))
         = reader_iter \<lparr>state = (if list_ex needs_quotes w then QUOTE_IN_QUOTED_FIELD
                                    else IN_FIELD),
                         row_fields = row_fields self, field = w\<rparr> (readlines rest)"
proof (cases "list_ex needs_quotes w")
  case True
  let ?q = "\<lparr>state = IN_QUOTED_FIELD, row_fields = row_fields self, field = []\<rparr>"
  have ne1: "escaped w @ quotechar # rest \<noteq> []" by simp
  have "reader_iter self (readlines (quotechar # escaped w @ quotechar # rest))
        = reader_iter ?q (readlines (escaped w @ quotechar # rest))"
    by (simp add: reader_iter_char [OF special_distinct(1) ne1]
          start_quote_char [OF assms(1,2)])
  also have "\<dots> = reader_iter (?q\<lparr>field := field ?q @ w\<rparr>) (readlines (quotechar # rest))"
    using assms by (intro quoted_run) simp_all
  also have "\<dots> = reader_iter \<lparr>state = QUOTE_IN_QUOTED_FIELD, row_fields = row_fields self,
                                 field = w\<rparr> (readlines rest)"
    by (simp add: reader_iter_char [OF special_distinct(1) assms(6)] in_quoted_quote)
  finally show ?thesis using True by (simp add: join_append_escaped)
next
  case False
  note pc = plain_chars [OF False]
  obtain c w' where w: "w = c # w'" using assms(3) by (cases w) auto
  let ?s = "\<lparr>state = IN_FIELD, row_fields = row_fields self, field = [c]\<rparr>"
  have c: "c \<noteq> LF" "c \<noteq> CR" "c \<noteq> quotechar" "c \<noteq> delimiter" using pc w by auto
  have ne1: "w' @ rest \<noteq> []" using assms(6) by simp
  have "reader_iter self (readlines (c # w' @ rest)) = reader_iter ?s (readlines (w' @ rest))"
    by (simp add: reader_iter_char [OF c(1) ne1] start_plain_char [OF assms(1,2) c])
  also have "\<dots> = reader_iter (?s\<lparr>field := field ?s @ w'\<rparr>) (readlines rest)"
    using assms pc w by (intro unquoted_run) simp_all
  finally show ?thesis using False pc w by (simp add: join_append_escaped escaped_plain)
qed

lemma field_then_delimiter:
  assumes "state self = START_RECORD \<or> state self = START_FIELD" and "field self = []"
    and "w \<noteq> []" and "CR \<notin> set w" and "length w \<le> field_limit" and "rest \<noteq> []"
  shows "reader_iter self (readlines (join_append w @ delimiter # rest))
         = reader_iter \<lparr>state = START_FIELD, row_fields = row_fields self @ [w], field = []\<rparr>
             (readlines rest)"
proof -
  let ?s = "\<lparr>state = (if list_ex needs_quotes w then QUOTE_IN_QUOTED_FIELD else IN_FIELD),
              row_fields = row_fields self, field = w\<rparr>"
  have "parse_process_char ?s (Some delimiter)
        = Inr \<lparr>state = START_FIELD, row_fields = row_fields self @ [w], field = []\<rparr>"
    using special_distinct by (simp add: parse_process_char_def parse_save_field_def)
  then have "reader_iter ?s (readlines (delimiter # rest))
        = reader_iter \<lparr>state = START_FIELD, row_fields = row_fields self @ [w], field = []\<rparr>
             (readlines rest)"
    by (simp add: reader_iter_char [OF special_distinct(3) assms(6)])
  then show ?thesis
    using field_body [OF assms(1-5), of "delimiter # rest"] by simp
qed

lemma field_then_newline:
  assumes "state self = START_RECORD \<or> state self = START_FIELD" and "field self = []"
    and "w \<noteq> []" and "CR \<notin> set w" and "length w \<le> field_limit"
  shows "reader_iter self (readlines (join_append w @ LF # rest))
         = Inr (row_fields self @ [w]) # reader_iter parse_reset (readlines rest)"
proof -
  let ?s = "\<lparr>state = (if list_ex needs_quotes w then QUOTE_IN_QUOTED_FIELD else IN_FIELD),
              row_fields = row_fields self, field = w\<rparr>"
  have "parse_line ?s [LF]
        = Inr \<lparr>state = START_RECORD, row_fields = row_fields self @ [w], field = []\<rparr>"
    using special_distinct
    by (simp add: parse_line_def parse_process_char_def parse_save_field_def)
  then have "reader_iter ?s (readlines (LF # rest))
        = Inr (row_fields self @ [w]) # reader_iter parse_reset (readlines rest)"
    by (simp add: reader_iter_newline)
  then show ?thesis
    using field_body [OF assms(1-5), of "LF # rest"] by simp
qed

lemma record_of_two:
  assumes "a \<noteq> []" "CR \<notin> set a" "length a \<le> field_limit"
    and "r \<noteq> []" "CR \<notin> set r" "length r \<le> field_limit"
  shows "reader_iter parse_reset (readlines (join_append a @ delimiter # join_append r @ LF # rest))
         = Inr [a, r] # reader_iter parse_reset (readlines rest)"
proof -
  let ?s = "\<lparr>state = START_FIELD, row_fields = row_fields parse_reset @ [a], field = []\<rparr>"
  have "reader_iter parse_reset
          (readlines (join_append a @ delimiter # join_append r @ LF # rest))
        = reader_iter ?s (readlines (join_append r @ LF # rest))"
    using assms(1-3) by (intro field_then_delimiter) (simp_all add: parse_reset_def)
  also have "\<dots> = Inr (row_fields ?s @ [r]) # reader_iter parse_reset (readlines rest)"
    using assms(4-6) by (intro field_then_newline) simp_all
  finally show ?thesis by (simp add: parse_reset_def)
qed

lemma escaped_chars: "set (escaped w) = set w"
  by (induction w) (auto simp: escaped_def)

lemma join_append_no_CR: "CR \<notin> set w \<Longrightarrow> CR \<notin> set (join_append w)"
  using special_distinct by (auto simp: join_append_escaped escaped_chars)

lemma data_line_read:
  assumes "CR \<notin> set a" and "CR \<notin> set r"
  shows "universal_newlines (data_line a r @ rest) = read_line (a, r) @ universal_newlines rest"
proof -
  let ?x = "join_append a @ delimiter # join_append r"
  have "CR \<notin> set ?x" using assms special_distinct join_append_no_CR by auto
  then have "universal_newlines (?x @ CR # LF # rest) = ?x @ LF # universal_newlines rest"
    by (rule universal_newlines_line)
  then show ?thesis by (simp add: data_line_def read_line_def)
qed

lemma manifest_read:
  "\<forall>row \<in> set rows. CR \<notin> set (fst row) \<and> CR \<notin> set (snd row) \<Longrightarrow>
   universal_newlines (concat (map (\<lambda>row. data_line (fst row) (snd row)) rows))
   = concat (map read_line rows)"
proof (induction rows)
  case Nil
  then show ?case by simp
next
  case (Cons row rows)
  then show ?case using data_line_read [of "fst row" "snd row"] by simp
qed

lemma records_read:
  "\<forall>row \<in> set rows. fst row \<noteq> [] \<and> CR \<notin> set (fst row) \<and> length (fst row) \<le> field_limit
      \<and> snd row \<noteq> [] \<and> CR \<notin> set (snd row) \<and> length (snd row) \<le> field_limit \<Longrightarrow>
   reader_iter parse_reset (readlines (concat (map read_line rows)))
   = map (\<lambda>row. Inr [fst row, snd row]) rows"
proof (induction rows)
  case Nil
  then show ?case by (simp add: readlines_Nil parse_reset_def)
next
  case (Cons row rows)
  have "reader_iter parse_reset
          (readlines (join_append (fst row) @ delimiter # join_append (snd row) @ LF
               # concat (map read_line rows)))
        = Inr [fst row, snd row] # reader_iter parse_reset (readlines (concat (map read_line rows)))"
    using Cons.prems by (intro record_of_two) simp_all
  moreover have "read_line row
        = join_append (fst row) @ delimiter # join_append (snd row) @ [LF]"
    by (simp add: read_line_def)
  ultimately show ?case using Cons by simp
qed

lemma first_column_rows:
  "first_column (map (\<lambda>row. Inr [fst row, snd row]) rows) = Inr (map fst rows)"
  by (induction rows) (simp_all add: getitem_def)

lemma normpath_nonempty: "normpath s \<noteq> []"
  by (simp add: normpath_def Let_def)

lemma str_join_chars:
  "set (str_join [c] xs) \<subseteq> insert c (\<Union>x \<in> set xs. set x)"
proof (cases xs)
  case Nil
  then show ?thesis by simp
next
  case (Cons y ys)
  then show ?thesis by (auto simp: str_join_Cons simp del: str_join.simps)
qed

lemma str_join_part: "x \<in> set xs \<Longrightarrow> set x \<subseteq> set (str_join [c] xs)"
  by (cases xs) (auto simp: str_join_Cons simp del: str_join.simps)

lemma components_chars:
  assumes "isabs cwd" and "x \<in> set (components cwd s)"
  shows "set x \<subseteq> set (abspath cwd s)"
  using str_join_part [OF assms(2), of sep] by (auto simp: abspath_normal [OF assms(1)])

lemma relpath_no_CR:
  assumes "isabs cwd" and "relpath cwd path start = Inr rel" and "CR \<notin> set (abspath cwd path)"
  shows "CR \<notin> set rel"
proof -
  have parts: "\<forall>b \<in> set (rel_list cwd path start). CR \<notin> set b"
  proof
    fix b assume "b \<in> set (rel_list cwd path start)"
    then have "b = ''..'' \<or> b \<in> set (components cwd path)"
      unfolding rel_list_def by (auto dest: in_set_dropD)
    then show "CR \<notin> set b"
      using components_chars [OF assms(1), of b path] assms(3) by (auto simp: CR_def)
  qed
  have "CR \<notin> set (str_join [sep] (rel_list cwd path start))"
    using str_join_chars [of sep "rel_list cwd path start"] parts
    by (auto simp: CR_def sep_def)
  then show ?thesis
    using relpath_form [OF assms(1,2)] by (auto simp: CR_def split: if_splits)
qed

text \<open>
  What is written is read back where no carriage return is in the way.  The working
  directory is absolute, the manifest can be opened for writing, and for every image
  path the row \<open>save_annotations\<close> computes exists, can be written in the encoding of
  the file, has no carriage return in its absolute path, and has fields of at most
  \<open>csv.field_size_limit()\<close> characters.  Then \<open>save_annotations\<close> raises nothing, an
  iterator constructed over the manifest holds the absolute paths of the image paths
  in their order, and draining it gives these paths and then \<open>StopIteration\<close>.
\<close>

lemma read_back_without_carriage_return:
  assumes "isabs cwd" and "write_blocked fs manifest = None"
    and "list_all (encodable fs) header_line"
    and "\<forall>p \<in> set paths. \<exists>a r. annotation_row cwd manifest p = Inr [a, r]
           \<and> list_all (encodable fs) (data_line a r)
           \<and> CR \<notin> set a \<and> length a \<le> field_limit \<and> length r \<le> field_limit"
  shows "snd (save_annotations cwd paths manifest fs) = None
         \<and> ImageIterator_init (fst (save_annotations cwd paths manifest fs)) manifest
           = Inr \<lparr>annotation_file = manifest, image_paths = map (abspath cwd) paths,
                   current_index = 0\<rparr>
         \<and> drain \<lparr>annotation_file = manifest, image_paths = map (abspath cwd) paths,
                   current_index = 0\<rparr>
           = (map (abspath cwd) paths, StopIteration,
              \<lparr>annotation_file = manifest, image_paths = map (abspath cwd) paths,
               current_index = int (length paths)\<rparr>)"
proof -
  let ?abs = "map (abspath cwd) paths"
  have enc: "\<forall>p \<in> set paths. \<exists>a r. annotation_row cwd manifest p = Inr [a, r]
           \<and> list_all (encodable fs) (data_line a r)"
    using assms(4) by blast
  from save_annotations_text [OF assms(2,3) enc] obtain rels where
    rels: "map (\<lambda>p. relpath cwd p (dirname manifest)) paths = map Inr rels"
    and sv: "save_annotations cwd paths manifest fs
        = (fs\<lparr>files := (files fs)(manifest \<mapsto> header_line
              @ concat (map2 (\<lambda>p r. data_line (abspath cwd p) r) paths rels))\<rparr>, None)"
    by blast
  from rels have len: "length rels = length paths" by (metis length_map)
  let ?rows = "zip ?abs rels"
  let ?all = "(''absolute_path'', ''relative_path'') # ?rows"
  have shape: "header_line @ concat (map2 (\<lambda>p r. data_line (abspath cwd p) r) paths rels)
        = concat (map (\<lambda>row. data_line (fst row) (snd row)) ?all)"
    by (simp add: header_line_row zip_map1 case_prod_unfold comp_def)
  have good: "fst row \<noteq> [] \<and> CR \<notin> set (fst row) \<and> length (fst row) \<le> field_limit
      \<and> snd row \<noteq> [] \<and> CR \<notin> set (snd row) \<and> length (snd row) \<le> field_limit"
    if "row \<in> set ?rows" for row
  proof -
    from that obtain i where i: "i < length paths" "fst row = abspath cwd (paths ! i)"
        "snd row = rels ! i"
      using len by (auto simp: in_set_zip)
    have rp: "relpath cwd (paths ! i) (dirname manifest) = Inr (rels ! i)"
      using rels i(1) len by (metis length_map nth_map)
    from assms(4) i(1) obtain a r where
      ar: "annotation_row cwd manifest (paths ! i) = Inr [a, r]" "CR \<notin> set a"
        "length a \<le> field_limit" "length r \<le> field_limit"
      by (meson nth_mem)
    from ar(1) rp have eq: "a = abspath cwd (paths ! i)" "r = rels ! i"
      by (simp_all add: annotation_row_def)
    have "rels ! i \<noteq> []" using rel_text_head [OF assms(1) rp] by simp
    moreover have "CR \<notin> set (rels ! i)"
      using relpath_no_CR [OF assms(1) rp] ar(2) eq by simp
    ultimately show ?thesis
      using i ar eq by (simp add: abspath_def normpath_nonempty)
  qed
  have goodall: "\<forall>row \<in> set ?all. fst row \<noteq> [] \<and> CR \<notin> set (fst row)
      \<and> length (fst row) \<le> field_limit
      \<and> snd row \<noteq> [] \<and> CR \<notin> set (snd row) \<and> length (snd row) \<le> field_limit"
    using good by (auto simp: CR_def field_limit_def)
  then have nocr: "\<forall>row \<in> set ?all. CR \<notin> set (fst row) \<and> CR \<notin> set (snd row)" by blast
  have "csv_reader (concat (map (\<lambda>row. data_line (fst row) (snd row)) ?all))
        = map (\<lambda>row. Inr [fst row, snd row]) ?all"
    unfolding csv_reader_def manifest_read [OF nocr] by (rule records_read [OF goodall])
  then have rd: "csv_reader (header_line
            @ concat (map2 (\<lambda>p r. data_line (abspath cwd p) r) paths rels))
        = Inr [''absolute_path'', ''relative_path'']
          # map (\<lambda>row. Inr [fst row, snd row]) ?rows"
    unfolding shape by simp
  have fc: "first_column (map (\<lambda>row. Inr [fst row, snd row]) ?rows) = Inr ?abs"
    using len by (simp add: first_column_rows)
  have init: "ImageIterator_init (fst (save_annotations cwd paths manifest fs)) manifest
           = Inr \<lparr>annotation_file = manifest, image_paths = ?abs, current_index = 0\<rparr>"
    by (simp add: sv ImageIterator_init_def load_annotations_def rd fc)
  have dr: "drain \<lparr>annotation_file = manifest, image_paths = ?abs, current_index = 0\<rparr>
           = (?abs, StopIteration,
              \<lparr>annotation_file = manifest, image_paths = ?abs,
               current_index = int (length paths)\<rparr>)"
    by (simp add: drain_in_range)
  from sv init dr show ?thesis by simp
qed

lemma ex_row2:
  "annotation_row ''/home/u'' ''out/m.csv'' ''/tmp/x,y.png''
     = Inr [''/tmp/x,y.png'', ''../../../tmp/x,y.png'']"
  by (simp add: annotation_row_def path_eval2)

lemma read_back_example:
  "snd (save_annotations ''/home/u'' [''dl/a.jpg'', ''/tmp/x,y.png''] ''out/m.csv''
            (fs_with ''x'' [])) = None
   \<and> ImageIterator_init
         (fst (save_annotations ''/home/u'' [''dl/a.jpg'', ''/tmp/x,y.png''] ''out/m.csv''
                 (fs_with ''x'' []))) ''out/m.csv''
       = Inr \<lparr>annotation_file = ''out/m.csv'',
              image_paths = [''/home/u/dl/a.jpg'', ''/tmp/x,y.png''], current_index = 0\<rparr>
   \<and> drain \<lparr>annotation_file = ''out/m.csv'',
              image_paths = [''/home/u/dl/a.jpg'', ''/tmp/x,y.png''], current_index = 0\<rparr>
       = ([''/home/u/dl/a.jpg'', ''/tmp/x,y.png''], StopIteration,
          \<lparr>annotation_file = ''out/m.csv'',
           image_paths = [''/home/u/dl/a.jpg'', ''/tmp/x,y.png''], current_index = 2\<rparr>)"
proof -
  have c: "isabs ''/home/u''" by (simp add: isabs_def startswith_def sep_def)
  have w: "write_blocked (fs_with ''x'' []) ''out/m.csv'' = None" by (simp add: fs_with_def)
  have e: "list_all (encodable (fs_with ''x'' [])) header_line"
    by (simp add: fs_with_def list_all_iff)
  have h: "\<forall>p \<in> set [''dl/a.jpg'', ''/tmp/x,y.png''].
             \<exists>a r. annotation_row ''/home/u'' ''out/m.csv'' p = Inr [a, r]
               \<and> list_all (encodable (fs_with ''x'' [])) (data_line a r)
               \<and> CR \<notin> set a \<and> length a \<le> field_limit \<and> length r \<le> field_limit"
    by (simp add: ex_row ex_row2 CR_def field_limit_def fs_with_def list_all_iff)
  have a1: "abspath ''/home/u'' ''dl/a.jpg'' = ''/home/u/dl/a.jpg''"
    using ex_row by (simp add: annotation_row_def split: sum.splits)
  have a2: "abspath ''/home/u'' ''/tmp/x,y.png'' = ''/tmp/x,y.png''"
    using ex_row2 by (simp add: annotation_row_def split: sum.splits)
  from read_back_without_carriage_return [OF c w e h] show ?thesis
    by (simp add: a1 a2)
qed

text \<open>
  The length matters: an absolute path that needs no quoting and is longer than the
  field limit is written, but the constructor over the manifest raises \<open>csv.Error\<close>.
\<close>

lemma universal_newlines_prefix:
  "CR \<notin> set x \<Longrightarrow> universal_newlines (x @ y) = x @ universal_newlines y"
  by (induction x) (auto simp: universal_newlines_plain)

lemma plain_field_over_limit:
  assumes "state self = START_RECORD \<or> state self = START_FIELD" and "field self = []"
    and "\<not> list_ex needs_quotes w" and "field_limit < length w" and "rest \<noteq> []"
  shows "reader_iter self (readlines (w @ rest)) = [Inl CsvError]"
proof -
  note pc = plain_chars [OF assms(3)]
  obtain c w' where w: "w = c # w'" using assms(4) by (cases w) auto
  let ?u = "take (field_limit - 1) w'" and ?v = "drop (field_limit - 1) w'"
  have "?v \<noteq> []" using assms(4) w by (simp add: field_limit_def)
  then obtain d v' where v: "?v = d # v'" by (cases ?v) auto
  have dw: "d \<in> set w'" using v by (metis in_set_dropD list.set_intros(1))
  have split: "w' = ?u @ d # v'" using v by (metis append_take_drop_id)
  let ?s = "\<lparr>state = IN_FIELD, row_fields = row_fields self, field = [c]\<rparr>"
  let ?t = "?s\<lparr>field := field ?s @ ?u\<rparr>"
  have c: "c \<noteq> LF" "c \<noteq> CR" "c \<noteq> quotechar" "c \<noteq> delimiter" using pc w by auto
  have d: "d \<noteq> LF" "d \<noteq> CR" "d \<noteq> delimiter" using pc w dw by auto
  have lu: "length ?u = field_limit - 1" using assms(4) w by (simp add: field_limit_def)
  have ne1: "w' @ rest \<noteq> []" using assms(5) by simp
  have ne2: "v' @ rest \<noteq> []" using assms(5) by simp
  have "reader_iter self (readlines (c # w' @ rest)) = reader_iter ?s (readlines (w' @ rest))"
    by (simp add: reader_iter_char [OF c(1) ne1] start_plain_char [OF assms(1,2) c])
  also have "\<dots> = reader_iter ?s (readlines (?u @ d # v' @ rest))"
    using split by (metis append.assoc append_Cons)
  also have "\<dots> = reader_iter ?t (readlines (d # v' @ rest))"
    using pc w lu by (intro unquoted_run) (auto simp: field_limit_def dest: in_set_takeD)
  also have "\<dots> = [Inl CsvError]"
    using d lu
    by (simp add: reader_iter_char [OF d(1) ne2] parse_process_char_def parse_add_char_def
          field_limit_def)
  finally show ?thesis using w by simp
qed

lemma over_limit_path_rejected:
  assumes "write_blocked fs manifest = None" and "list_all (encodable fs) header_line"
    and "annotation_row cwd manifest p = Inr [a, r]"
    and "list_all (encodable fs) (data_line a r)"
    and "\<not> list_ex needs_quotes a" and "field_limit < length a"
  shows "ImageIterator_init (fst (save_annotations cwd [p] manifest fs)) manifest
         = Inl CsvError"
proof -
  note pc = plain_chars [OF assms(5)]
  let ?tail = "delimiter # join_append r @ [CR, LF]"
  have h: "\<forall>q \<in> set [p]. \<exists>a r. annotation_row cwd manifest q = Inr [a, r]
             \<and> list_all (encodable fs) (data_line a r)"
    using assms(3,4) by simp
  from save_annotations_text [OF assms(1,2) h] obtain rels where
    rels: "map (\<lambda>p. relpath cwd p (dirname manifest)) [p] = map Inr rels"
    and sv0: "save_annotations cwd [p] manifest fs
        = (fs\<lparr>files := (files fs)(manifest \<mapsto> header_line
              @ concat (map2 (\<lambda>p r. data_line (abspath cwd p) r) [p] rels))\<rparr>, None)"
    by blast
  from assms(3) have ar: "relpath cwd p (dirname manifest) = Inr r" "a = abspath cwd p"
    by (simp_all add: annotation_row_fields)
  with rels have "rels = [r]" by auto
  with sv0 ar(2) have sv1: "save_annotations cwd [p] manifest fs
        = (fs\<lparr>files := (files fs)(manifest \<mapsto> header_line @ data_line a r)\<rparr>, None)"
    by simp
  have "data_line a r = a @ ?tail"
    using pc by (simp add: data_line_def join_append_escaped assms(5) escaped_plain)
  with sv1 have sv: "save_annotations cwd [p] manifest fs
        = (fs\<lparr>files := (files fs)(manifest \<mapsto> header_line @ a @ ?tail)\<rparr>, None)"
    by simp
  have "universal_newlines (header_line @ a @ ?tail)
        = read_line (''absolute_path'', ''relative_path'') @ universal_newlines (a @ ?tail)"
    unfolding header_line_row by (intro data_line_read) (simp_all add: CR_def)
  also have "universal_newlines (a @ ?tail) = a @ universal_newlines ?tail"
    using pc by (intro universal_newlines_prefix) simp
  also have "universal_newlines ?tail = delimiter # universal_newlines (join_append r @ [CR, LF])"
    using special_distinct by (intro universal_newlines_plain) simp
  finally have un: "universal_newlines (header_line @ a @ ?tail)
        = join_append ''absolute_path'' @ delimiter # join_append ''relative_path'' @ LF
          # a @ delimiter # universal_newlines (join_append r @ [CR, LF])"
    by (simp add: read_line_def)
  have "csv_reader (header_line @ a @ ?tail)
        = Inr [''absolute_path'', ''relative_path'']
          # reader_iter parse_reset
              (readlines (a @ delimiter # universal_newlines (join_append r @ [CR, LF])))"
    unfolding csv_reader_def un
    by (intro record_of_two) (simp_all add: CR_def field_limit_def)
  also have "reader_iter parse_reset
              (readlines (a @ delimiter # universal_newlines (join_append r @ [CR, LF])))
             = [Inl CsvError]"
    using assms(5,6) by (intro plain_field_over_limit) (simp_all add: parse_reset_def)
  finally have rd: "csv_reader (header_line @ a @ ?tail)
        = [Inr [''absolute_path'', ''relative_path''], Inl CsvError]" .
  show ?thesis
    by (simp add: sv ImageIterator_init_def load_annotations_def rd)
qed

text \<open>
  Claim C1.  An image path with a carriage return is not read back.  For the working
  directory \<open>/d\<close>, the one image path \<open>a\<close>, carriage return, \<open>.jpg\<close>, and the manifest
  \<open>/d/m.csv\<close>, \<open>save_annotations\<close> raises nothing and writes the absolute path
  \<open>/d/a\<close>, carriage return, \<open>.jpg\<close> inside quotes, the file being opened with
  \<open>newline=''\<close>.  \<open>load_annotations\<close> opens the manifest without \<open>newline=''\<close>: the
  carriage return reaches the reader as a line feed, the iterator constructed over
  the manifest yields \<open>/d/a\<close>, line feed, \<open>.jpg\<close> and then \<open>StopIteration\<close>, and that
  path is not the absolute path of the image.
\<close>

theorem carriage_return_read_back:
  "save_annotations ''/d'' [[CHR ''a'', CR, CHR ''.'', CHR ''j'', CHR ''p'', CHR ''g'']]
       ''/d/m.csv'' (fs_with ''x'' [])
     = ((fs_with ''x'' [])\<lparr>files := (files (fs_with ''x'' []))(''/d/m.csv'' \<mapsto>
          header_line
          @ [quotechar, CHR ''/'', CHR ''d'', CHR ''/'', CHR ''a'', CR, CHR ''.'', CHR ''j'',
             CHR ''p'', CHR ''g'', quotechar, delimiter,
             quotechar, CHR ''a'', CR, CHR ''.'', CHR ''j'', CHR ''p'', CHR ''g'', quotechar,
             CR, LF])\<rparr>, None)
   \<and> ImageIterator_init
         (fst (save_annotations ''/d''
                 [[CHR ''a'', CR, CHR ''.'', CHR ''j'', CHR ''p'', CHR ''g'']]
                 ''/d/m.csv'' (fs_with ''x'' [])))
         ''/d/m.csv''
       = Inr \<lparr>annotation_file = ''/d/m.csv'',
              image_paths = [[CHR ''/'', CHR ''d'', CHR ''/'', CHR ''a'', LF, CHR ''.'',
                              CHR ''j'', CHR ''p'', CHR ''g'']],
              current_index = 0\<rparr>
   \<and> drain \<lparr>annotation_file = ''/d/m.csv'',
              image_paths = [[CHR ''/'', CHR ''d'', CHR ''/'', CHR ''a'', LF, CHR ''.'',
                              CHR ''j'', CHR ''p'', CHR ''g'']],
              current_index = 0\<rparr>
       = ([[CHR ''/'', CHR ''d'', CHR ''/'', CHR ''a'', LF, CHR ''.'', CHR ''j'', CHR ''p'',
            CHR ''g'']], StopIteration,
          \<lparr>annotation_file = ''/d/m.csv'',
           image_paths = [[CHR ''/'', CHR ''d'', CHR ''/'', CHR ''a'', LF, CHR ''.'',
                           CHR ''j'', CHR ''p'', CHR ''g'']],
           current_index = 1\<rparr>)
   \<and> abspath ''/d'' [CHR ''a'', CR, CHR ''.'', CHR ''j'', CHR ''p'', CHR ''g'']
       = [CHR ''/'', CHR ''d'', CHR ''/'', CHR ''a'', CR, CHR ''.'', CHR ''j'', CHR ''p'',
          CHR ''g'']
   \<and> [[CHR ''/'', CHR ''d'', CHR ''/'', CHR ''a'', LF, CHR ''.'', CHR ''j'', CHR ''p'',
         CHR ''g'']]
       \<noteq> map (abspath ''/d'') [[CHR ''a'', CR, CHR ''.'', CHR ''j'', CHR ''p'', CHR ''g'']]"
proof -
  let ?p = "[CHR ''a'', CR, CHR ''.'', CHR ''j'', CHR ''p'', CHR ''g'']"
  let ?a = "[CHR ''/'', CHR ''d'', CHR ''/'', CHR ''a'', CR, CHR ''.'', CHR ''j'', CHR ''p'',
             CHR ''g'']"
  let ?b = "[CHR ''/'', CHR ''d'', CHR ''/'', CHR ''a'', LF, CHR ''.'', CHR ''j'', CHR ''p'',
             CHR ''g'']"
  let ?line = "[quotechar, CHR ''/'', CHR ''d'', CHR ''/'', CHR ''a'', CR, CHR ''.'', CHR ''j'',
             CHR ''p'', CHR ''g'', quotechar, delimiter,
             quotechar, CHR ''a'', CR, CHR ''.'', CHR ''j'', CHR ''p'', CHR ''g'', quotechar,
             CR, LF]"
  have cr_abs: "abspath ''/d'' ?p = ?a"
    by (simp add: path_eval2 CR_def)
  have cr_row: "annotation_row ''/d'' ''/d/m.csv'' ?p = Inr [?a, ?p]"
    by (simp add: annotation_row_def path_eval2 CR_def)
  have cr_text: "writerow [?a, ?p] = ?line"
    by (simp add: writerow_def join_append_def needs_quotes_def lineterminator_def
          delimiter_def quotechar_def CR_def LF_def)
  have cr_read: "csv_reader (header_line @ ?line)
       = [Inr [''absolute_path'', ''relative_path''], Inr [?b, [CHR ''a'', LF, CHR ''.'',
            CHR ''j'', CHR ''p'', CHR ''g'']]]"
    by (simp add: csv_eval header_line_def readlines.simps)
  have sv: "save_annotations ''/d'' [?p] ''/d/m.csv'' (fs_with ''x'' [])
     = ((fs_with ''x'' [])\<lparr>files := (files (fs_with ''x'' []))(''/d/m.csv'' \<mapsto>
          header_line @ ?line)\<rparr>, None)"
    unfolding save_annotations_def header_line_def [symmetric]
    by (simp add: fs_with_def f_write_def cr_row cr_text list_all_iff)
  have init: "ImageIterator_init
         (fst (save_annotations ''/d'' [?p] ''/d/m.csv'' (fs_with ''x'' []))) ''/d/m.csv''
       = Inr \<lparr>annotation_file = ''/d/m.csv'', image_paths = [?b], current_index = 0\<rparr>"
    unfolding sv by (simp add: ImageIterator_init_def load_annotations_def cr_read getitem_def)
  have dr: "drain \<lparr>annotation_file = ''/d/m.csv'', image_paths = [?b], current_index = 0\<rparr>
       = ([?b], StopIteration,
          \<lparr>annotation_file = ''/d/m.csv'', image_paths = [?b], current_index = 1\<rparr>)"
    by (simp add: drain_in_range)
  have ne: "[?b] \<noteq> map (abspath ''/d'') [?p]"
    unfolding list.map cr_abs by (simp add: CR_def LF_def)
  show ?thesis by (intro conjI sv init dr cr_abs ne)
qed

end
